theory Spec2Isabelle
  imports Main "HOL-Library.Word"
begin

unbundle bit_operations_syntax

section \<open>JavaScript strings\<close>

text \<open>
  A JavaScript string is a sequence of UTF-16 code units; \<open>length\<close>, \<open>slice\<close> and
  \<open>trim\<close> all count and cut code units, so a string is a list of 16-bit words.
\<close>

type_synonym jschar = "16 word"
type_synonym jsstring = "jschar list"

text \<open>An ASCII literal of the source as code units.\<close>

definition lit :: "string \<Rightarrow> jsstring" where
  "lit s = map (\<lambda>c. of_nat (of_char c)) s"

text \<open>
  The characters matched by the regular expression class \<open>\s\<close> and removed by
  \<open>String.prototype.trim\<close>: ECMAScript WhiteSpace and LineTerminator (TAB, LF, VT, FF, CR,
  SP, NBSP, U+1680, U+2000 to U+200A, LS, PS, U+202F, U+205F, U+3000, ZWNBSP).
\<close>

definition is_ws :: "jschar \<Rightarrow> bool" where
  "is_ws c =
     (c \<in> set [0x09, 0x0A, 0x0B, 0x0C, 0x0D, 0x20, 0xA0, 0x1680, 0x2028, 0x2029, 0x202F,
               0x205F, 0x3000, 0xFEFF]
      \<or> (0x2000 \<le> c \<and> c \<le> 0x200A))"

definition SP :: jschar where
  "SP = 0x20"

text \<open>\<open>s.trim()\<close>\<close>

definition js_trim :: "jsstring \<Rightarrow> jsstring" where
  "js_trim s = rev (dropWhile is_ws (rev (dropWhile is_ws s)))"

text \<open>
  \<open>text.replace(/\s+/g, ' ')\<close>: scanning from the left, every maximal run of whitespace is
  replaced by one space; every other code unit is copied.
\<close>

function replace_ws :: "jsstring \<Rightarrow> jsstring" where
  "replace_ws [] = []"
| "replace_ws (c # cs) =
     (if is_ws c then SP # replace_ws (dropWhile is_ws cs) else c # replace_ws cs)"
  by pat_completeness auto
termination
  by (relation "measure length") (auto simp: length_dropWhile_le less_Suc_eq_le)

text \<open>\<open>const normalizeText = (text: string) => text.replace(/\s+/g, ' ').trim()\<close>\<close>

definition normalizeText :: "jsstring \<Rightarrow> jsstring" where
  "normalizeText text = js_trim (replace_ws text)"

section \<open>Constants of the content script\<close>

definition MAX_TEXT_LENGTH :: nat where
  "MAX_TEXT_LENGTH = 2000"

definition RESULT_TIMEOUT_MS :: nat where
  "RESULT_TIMEOUT_MS = 12000"

definition RESULT_SCAN_DELAY_MS :: nat where
  "RESULT_SCAN_DELAY_MS = 250"

definition MAX_RECENT_LOGS :: nat where
  "MAX_RECENT_LOGS = 50"

section \<open>The page as the content script reads it\<close>

text \<open>
  The script reads a document only through four selector queries. A document is the
  result of each query in document order: the \<open>textContent\<close> (\<open>string | null\<close>) of the
  elements matching \<open>.mc-prob-text\<close> and \<open>span.aops-font\<close>, the \<open>value\<close> of the elements
  matching \<open>input[type="text"], input[type="number"], textarea\<close>, and the
  \<open>dataset.problemId\<close> (\<open>string | undefined\<close>) of the elements matching
  \<open>[data-problem-id]\<close>. \<open>docURL\<close> is the document's own address, which no function of the
  script reads.
\<close>

record document =
  docURL :: jsstring
  probTextEls :: "jsstring option list"
  answerInputs :: "jsstring list"
  resultIcons :: "jsstring option list"
  problemIdEls :: "jsstring option list"

text \<open>Documents are objects with identity: a reference into the store of the page.\<close>

type_synonym doc_ref = nat

text \<open>
  An \<open>iframe\<close> element: reading \<open>contentDocument\<close> throws for a frame of another origin,
  yields \<open>null\<close> for a frame without a document, and the frame's document otherwise.
\<close>

datatype frame = CrossOrigin | NoDocument | FrameDoc doc_ref

datatype dom_error = SecurityError

fun contentDocument :: "frame \<Rightarrow> dom_error + doc_ref option" where
  "contentDocument CrossOrigin = Inl SecurityError"
| "contentDocument NoDocument = Inr None"
| "contentDocument (FrameDoc r) = Inr (Some r)"

text \<open>
  The window of the content script: \<open>window.location.href\<close>, the query parameters that
  \<open>new URL(window.location.href).searchParams\<close> holds (name and value of each pair, in
  order), \<open>document.title\<close>, the top document, the result of
  \<open>document.querySelectorAll('iframe')\<close>, and the store of documents.
\<close>

record page =
  href :: jsstring
  searchParams :: "(jsstring \<times> jsstring) list"
  title :: jsstring
  topDoc :: doc_ref
  iframes :: "frame list"
  documentOf :: "doc_ref \<Rightarrow> document"

text \<open>\<open>URLSearchParams.get\<close>: the value of the first pair with the name, or \<open>null\<close>.\<close>

fun searchParams_get :: "(jsstring \<times> jsstring) list \<Rightarrow> jsstring \<Rightarrow> jsstring option" where
  "searchParams_get [] name = None"
| "searchParams_get ((k, v) # kvs) name = (if k = name then Some v else searchParams_get kvs name)"

text \<open>\<open>safeAccessFrameDocument\<close>: the \<open>catch\<close> turns the exception into \<open>null\<close>.\<close>

definition safeAccessFrameDocument :: "frame \<Rightarrow> doc_ref option" where
  "safeAccessFrameDocument fr =
     (case contentDocument fr of Inl _ \<Rightarrow> None | Inr d \<Rightarrow> d)"

text \<open>
  \<open>Set.add\<close> on a set kept in insertion order: an element already present keeps its place.
\<close>

definition set_add :: "'a list \<Rightarrow> 'a \<Rightarrow> 'a list" where
  "set_add xs x = (if x \<in> set xs then xs else xs @ [x])"

text \<open>The loop of \<open>getAllCandidateDocuments\<close> over the frames.\<close>

fun addFrameDocs :: "doc_ref list \<Rightarrow> frame list \<Rightarrow> doc_ref list" where
  "addFrameDocs ds [] = ds"
| "addFrameDocs ds (fr # frs) =
     (case safeAccessFrameDocument fr of
        Some frameDoc \<Rightarrow> addFrameDocs (set_add ds frameDoc) frs
      | None \<Rightarrow> addFrameDocs ds frs)"

definition getAllCandidateDocuments :: "page \<Rightarrow> doc_ref list" where
  "getAllCandidateDocuments p = addFrameDocs [topDoc p] (iframes p)"

text \<open>\<open>doc.querySelector(sel)\<close> on the list of matches: the first match or \<open>null\<close>.\<close>

definition querySelector :: "'a list \<Rightarrow> 'a option" where
  "querySelector els = (case els of [] \<Rightarrow> None | e # _ \<Rightarrow> Some e)"

fun firstProblemFrame :: "page \<Rightarrow> frame list \<Rightarrow> doc_ref option" where
  "firstProblemFrame p [] = None"
| "firstProblemFrame p (fr # frs) =
     (case safeAccessFrameDocument fr of
        Some frameDoc \<Rightarrow>
          (if querySelector (probTextEls (documentOf p frameDoc)) \<noteq> None then Some frameDoc
           else firstProblemFrame p frs)
      | None \<Rightarrow> firstProblemFrame p frs)"

definition getProblemDocument :: "page \<Rightarrow> doc_ref option" where
  "getProblemDocument p =
     (if querySelector (probTextEls (documentOf p (topDoc p))) \<noteq> None then Some (topDoc p)
      else firstProblemFrame p (iframes p))"

definition getProblemText :: "page \<Rightarrow> doc_ref option \<Rightarrow> jsstring option" where
  "getProblemText p doc =
     (case doc of
        None \<Rightarrow> None
      | Some d \<Rightarrow>
          (let element = querySelector (probTextEls (documentOf p d));
               text = (case element of
                         Some (Some tc) \<Rightarrow> (if tc \<noteq> [] then normalizeText tc else [])
                       | _ \<Rightarrow> [])
           in if length text > 0 then Some (take MAX_TEXT_LENGTH text) else None))"

definition getProblemId :: "page \<Rightarrow> doc_ref option \<Rightarrow> jsstring option" where
  "getProblemId p doc =
     (case searchParams_get (searchParams p) (lit ''problem_id'') of
        Some v \<Rightarrow> Some v
      | None \<Rightarrow>
          (case searchParams_get (searchParams p) (lit ''problem'') of
             Some v \<Rightarrow> Some v
           | None \<Rightarrow>
               (case doc of
                  None \<Rightarrow> None
                | Some d \<Rightarrow>
                    (case querySelector (problemIdEls (documentOf p d)) of
                       None \<Rightarrow> None
                     | Some pid \<Rightarrow> pid))))"

fun firstAnswer :: "jsstring list \<Rightarrow> jsstring option" where
  "firstAnswer [] = None"
| "firstAnswer (v # vs) =
     (let value = js_trim v in if value \<noteq> [] then Some value else firstAnswer vs)"

definition getUserAnswer :: "page \<Rightarrow> doc_ref option \<Rightarrow> jsstring option" where
  "getUserAnswer p doc =
     (case doc of
        None \<Rightarrow> None
      | Some d \<Rightarrow> firstAnswer (answerInputs (documentOf p d)))"

datatype ResultState = correct | wrong

text \<open>The inner loop of \<open>getResultState\<close>: \<open>None\<close> when the loop ends without a return.\<close>

fun scanSpans :: "jsstring option list \<Rightarrow> ResultState option" where
  "scanSpans [] = None"
| "scanSpans (tc # spans) =
     (let value = map_option js_trim tc
      in if value = Some (lit ''J'') then Some wrong
         else if value = Some (lit ''q'') then Some correct
         else scanSpans spans)"

fun scanDocs :: "page \<Rightarrow> doc_ref list \<Rightarrow> ResultState option" where
  "scanDocs p [] = None"
| "scanDocs p (d # ds) =
     (case scanSpans (resultIcons (documentOf p d)) of
        Some r \<Rightarrow> Some r
      | None \<Rightarrow> scanDocs p ds)"

definition getResultState :: "page \<Rightarrow> ResultState option" where
  "getResultState p = scanDocs p (getAllCandidateDocuments p)"

section \<open>Pending submission and log payload\<close>

record PendingSubmission =
  pendingProblemText :: "jsstring option"
  pendingProblemId :: "jsstring option"
  pendingUserAnswer :: "jsstring option"
  submittedAt :: jsstring

text \<open>
  The type \<open>ProblemLogPayload\<close> of \<open>./messages\<close>: \<open>url\<close> and \<open>capturedAt\<close> are strings,
  every other field is optional.
\<close>

record ProblemLogPayload =
  url :: jsstring
  pageTitle :: "jsstring option"
  problemText :: "jsstring option"
  problemId :: "jsstring option"
  userAnswer :: "jsstring option"
  correctAnswer :: "jsstring option"
  resultText :: "jsstring option"
  capturedAt :: jsstring

text \<open>\<open>a ?? b\<close>\<close>

definition nullish :: "'a option \<Rightarrow> 'a option \<Rightarrow> 'a option" where
  "nullish a b = (case a of Some v \<Rightarrow> Some v | None \<Rightarrow> b)"

definition buildPayload :: "page \<Rightarrow> PendingSubmission \<Rightarrow> ProblemLogPayload" where
  "buildPayload p pending =
     (let problemDoc = getProblemDocument p
      in \<lparr> url = href p,
           pageTitle = Some (title p),
           problemText = nullish (pendingProblemText pending) (getProblemText p problemDoc),
           problemId = nullish (pendingProblemId pending) (getProblemId p problemDoc),
           userAnswer = nullish (pendingUserAnswer pending) (getUserAnswer p problemDoc),
           correctAnswer = None,
           resultText = Some (lit ''incorrect (J)''),
           capturedAt = submittedAt pending \<rparr>)"

section \<open>The signature: \<open>JSON.stringify\<close>\<close>

definition hex_digit :: "jschar \<Rightarrow> jschar" where
  "hex_digit n = (if n < 10 then 0x30 + n else 0x61 + (n - 10))"

text \<open>\<open>UnicodeEscape\<close>: a backslash, \<open>u\<close> and four lower-case hexadecimal digits.\<close>

definition unicode_escape :: "jschar \<Rightarrow> jsstring" where
  "unicode_escape c =
     [0x5C, 0x75, hex_digit (drop_bit 12 c), hex_digit (drop_bit 8 c AND 15),
      hex_digit (drop_bit 4 c AND 15), hex_digit (c AND 15)]"

definition is_high_surrogate :: "jschar \<Rightarrow> bool" where
  "is_high_surrogate c = (0xD800 \<le> c \<and> c \<le> 0xDBFF)"

definition is_low_surrogate :: "jschar \<Rightarrow> bool" where
  "is_low_surrogate c = (0xDC00 \<le> c \<and> c \<le> 0xDFFF)"

text \<open>One code unit that is not the first half of a surrogate pair.\<close>

definition quote_unit :: "jschar \<Rightarrow> jsstring" where
  "quote_unit c =
     (if c = 0x08 then [0x5C, 0x62]
      else if c = 0x09 then [0x5C, 0x74]
      else if c = 0x0A then [0x5C, 0x6E]
      else if c = 0x0C then [0x5C, 0x66]
      else if c = 0x0D then [0x5C, 0x72]
      else if c = 0x22 then [0x5C, 0x22]
      else if c = 0x5C then [0x5C, 0x5C]
      else if c < 0x20 \<or> is_high_surrogate c \<or> is_low_surrogate c then unicode_escape c
      else [c])"

text \<open>
  \<open>QuoteJSONString\<close> without the enclosing quotes: the string is read by code points, a
  surrogate pair is copied, a lone surrogate is escaped.
\<close>

fun quote_units :: "jsstring \<Rightarrow> jsstring" where
  "quote_units [] = []"
| "quote_units [c] = quote_unit c"
| "quote_units (c # d # cs) =
     (if is_high_surrogate c \<and> is_low_surrogate d then c # d # quote_units cs
      else quote_unit c @ quote_units (d # cs))"

definition json_string :: "jsstring \<Rightarrow> jsstring" where
  "json_string s = [0x22] @ quote_units s @ [0x22]"

text \<open>A property of the object: absent when the value is \<open>undefined\<close>.\<close>

definition json_member :: "string \<Rightarrow> jsstring option \<Rightarrow> jsstring list" where
  "json_member key v =
     (case v of None \<Rightarrow> [] | Some s \<Rightarrow> [json_string (lit key) @ [0x3A] @ json_string s])"

fun join_comma :: "jsstring list \<Rightarrow> jsstring" where
  "join_comma [] = []"
| "join_comma [m] = m"
| "join_comma (m # ms) = m @ [0x2C] @ join_comma ms"

text \<open>
  \<open>JSON.stringify({ url, problemText, userAnswer, resultText })\<close> of \<open>shouldLog\<close>.
\<close>

definition signature :: "ProblemLogPayload \<Rightarrow> jsstring" where
  "signature payload =
     [0x7B] @
     join_comma (json_member ''url'' (Some (url payload)) @
                 json_member ''problemText'' (problemText payload) @
                 json_member ''userAnswer'' (userAnswer payload) @
                 json_member ''resultText'' (resultText payload)) @
     [0x7D]"

section \<open>State of the content script\<close>

datatype timer_callback = ScanCallback | ExpiryCallback

text \<open>
  What a run of the script leaves behind besides its variables: a payload built by
  \<open>buildPayload\<close>, a payload handed to \<open>shouldLog\<close> with the answer it got, and a
  message sent to the background worker by \<open>sendLog\<close>. The log of these is kept for the
  properties below; it is no variable of the script.
\<close>

datatype effect =
  Built ProblemLogPayload
| Gated ProblemLogPayload bool
| Sent ProblemLogPayload

text \<open>
  The three variables of the module, the insertion-ordered set \<open>recentSignatures\<close>, and
  the browser's side: the timers armed by \<open>window.setTimeout\<close> and not yet fired or
  cleared (handle, callback, delay), the next handle, and the log of effects.
\<close>

record cs_state =
  pendingSubmission :: "PendingSubmission option"
  scanTimeout :: "nat option"
  pendingTimeout :: "nat option"
  recentSignatures :: "jsstring list"
  timers :: "(nat \<times> timer_callback \<times> nat) list"
  nextTimerId :: nat
  effects :: "effect list"

text \<open>
  At load: nothing pending, no timer. The browser hands out timer handles that are
  positive and new; here they are handed out in order from 1.
\<close>

definition initial :: cs_state where
  "initial = \<lparr> pendingSubmission = None, scanTimeout = None, pendingTimeout = None,
               recentSignatures = [], timers = [], nextTimerId = 1, effects = [] \<rparr>"

text \<open>Truthiness of \<open>number | undefined\<close>.\<close>

definition truthy :: "nat option \<Rightarrow> bool" where
  "truthy t = (case t of None \<Rightarrow> False | Some n \<Rightarrow> n \<noteq> 0)"

definition setTimeout :: "timer_callback \<Rightarrow> nat \<Rightarrow> cs_state \<Rightarrow> nat \<times> cs_state" where
  "setTimeout cb delay s =
     (nextTimerId s,
      s\<lparr> timers := timers s @ [(nextTimerId s, cb, delay)],
         nextTimerId := nextTimerId s + 1 \<rparr>)"

definition clearTimeout :: "nat option \<Rightarrow> cs_state \<Rightarrow> cs_state" where
  "clearTimeout h s =
     (case h of
        None \<Rightarrow> s
      | Some i \<Rightarrow> s\<lparr> timers := filter (\<lambda>t. fst t \<noteq> i) (timers s) \<rparr>)"

section \<open>The dedup gate\<close>

definition shouldLog :: "ProblemLogPayload \<Rightarrow> cs_state \<Rightarrow> bool \<times> cs_state" where
  "shouldLog payload s =
     (let sig = signature payload
      in if sig \<in> set (recentSignatures s)
         then (False, s\<lparr> effects := effects s @ [Gated payload False] \<rparr>)
         else
           (let added = set_add (recentSignatures s) sig;
                kept = (if length added > MAX_RECENT_LOGS
                        then (case added of
                                [] \<Rightarrow> added
                              | first # _ \<Rightarrow> if first \<noteq> [] then remove1 first added else added)
                        else added)
            in (True, s\<lparr> recentSignatures := kept,
                         effects := effects s @ [Gated payload True] \<rparr>)))"

definition sendLog :: "ProblemLogPayload \<Rightarrow> cs_state \<Rightarrow> cs_state" where
  "sendLog payload s = s\<lparr> effects := effects s @ [Sent payload] \<rparr>"

section \<open>Submission tracker and scan scheduler\<close>

definition clearPending :: "cs_state \<Rightarrow> cs_state" where
  "clearPending s =
     (let s1 = s\<lparr> pendingSubmission := None \<rparr>
      in if truthy (pendingTimeout s1)
         then (clearTimeout (pendingTimeout s1) s1)\<lparr> pendingTimeout := None \<rparr>
         else s1)"

definition scheduleResultScan :: "cs_state \<Rightarrow> cs_state" where
  "scheduleResultScan s =
     (if pendingSubmission s = None \<or> truthy (scanTimeout s) then s
      else (let (h, s1) = setTimeout ScanCallback RESULT_SCAN_DELAY_MS s
            in s1\<lparr> scanTimeout := Some h \<rparr>))"

definition startPendingTimeout :: "cs_state \<Rightarrow> cs_state" where
  "startPendingTimeout s =
     (let s1 = (if truthy (pendingTimeout s) then clearTimeout (pendingTimeout s) s else s);
          (h, s2) = setTimeout ExpiryCallback RESULT_TIMEOUT_MS s1
      in s2\<lparr> pendingTimeout := Some h \<rparr>)"

definition checkForResult :: "page \<Rightarrow> cs_state \<Rightarrow> cs_state" where
  "checkForResult p s =
     (case pendingSubmission s of
        None \<Rightarrow> s
      | Some pending \<Rightarrow>
          (case getResultState p of
             None \<Rightarrow> s
           | Some result \<Rightarrow>
               (let s1 = clearPending s
                in if result = wrong
                   then (let payload = buildPayload p pending;
                             s2 = s1\<lparr> effects := effects s1 @ [Built payload] \<rparr>;
                             (ok, s3) = shouldLog payload s2
                         in if ok then sendLog payload s3 else s3)
                   else s1)))"

text \<open>The click arrives with the page as it is then and with \<open>new Date().toISOString()\<close>.\<close>

definition handleSubmitClick :: "page \<Rightarrow> jsstring \<Rightarrow> cs_state \<Rightarrow> cs_state" where
  "handleSubmitClick p now s =
     (let problemDoc = getProblemDocument p;
          s1 = s\<lparr> pendingSubmission :=
                    Some \<lparr> pendingProblemText = getProblemText p problemDoc,
                           pendingProblemId = getProblemId p problemDoc,
                           pendingUserAnswer = getUserAnswer p problemDoc,
                           submittedAt = now \<rparr> \<rparr>
      in scheduleResultScan (startPendingTimeout s1))"

text \<open>
  The callbacks of the event loop on a trainer page, each run to completion: a click
  inside the submit button, a notification of a mutation observer (its bookkeeping of
  observed documents and frames does not touch the state below), and the firing of a
  timer. A timer fires once and only while armed; the handle of a fired or cleared timer
  does nothing.
\<close>

datatype event = SubmitClick jsstring | MutationObserved | TimerFires nat

fun findTimer :: "nat \<Rightarrow> (nat \<times> timer_callback \<times> nat) list \<Rightarrow> timer_callback option" where
  "findTimer i [] = None"
| "findTimer i ((j, cb, d) # ts) = (if j = i then Some cb else findTimer i ts)"

fun step :: "page \<Rightarrow> event \<Rightarrow> cs_state \<Rightarrow> cs_state" where
  "step p (SubmitClick now) s = handleSubmitClick p now s"
| "step p MutationObserved s = scheduleResultScan s"
| "step p (TimerFires i) s =
     (case findTimer i (timers s) of
        None \<Rightarrow> s
      | Some cb \<Rightarrow>
          (let s1 = clearTimeout (Some i) s
           in case cb of
                ScanCallback \<Rightarrow> checkForResult p (s1\<lparr> scanTimeout := None \<rparr>)
              | ExpiryCallback \<Rightarrow> clearPending s1))"

text \<open>A history: each event with the page at the moment it is handled.\<close>

fun run :: "(page \<times> event) list \<Rightarrow> cs_state \<Rightarrow> cs_state" where
  "run [] s = s"
| "run ((p, e) # es) s = run es (step p e s)"

section \<open>The background worker\<close>

definition MAX_QUEUE_SIZE :: nat where
  "MAX_QUEUE_SIZE = 200"

text \<open>
  The \<open>User\<close> of the auth library, as far as the worker reads it: a write goes to the
  collection of its \<open>uid\<close>.
\<close>

datatype user = User (uid: jsstring)

text \<open>
  The type \<open>LogProblemResponse\<close> of \<open>./messages\<close>:
  \<open>{ ok: true, queued, queuedCount }\<close> or \<open>{ ok: false, error, queuedCount }\<close>, the answers
  to a \<open>LOG_WRONG_PROBLEM\<close> message (the error text is left out).
\<close>

datatype LogProblemResponse = Ok bool nat | Failed nat

text \<open>
  The worker is asynchronous: a function runs until an \<open>await\<close> on the storage or on the
  remote store and is resumed when that operation completes, with other callbacks running
  in between. A task is a suspended call with the values it holds:
  \<^item> \<open>enqueueProblemLog\<close> awaiting \<open>loadQueue\<close>, then awaiting \<open>saveQueue(queue)\<close>; the flag
    tells whether the handler called it for a signed-out sender or from its \<open>catch\<close>;
  \<^item> the message handler awaiting \<open>writeProblemLog\<close>, then \<open>loadQueue\<close> for the count;
  \<^item> the auth listener awaiting \<open>storageSet\<close> of the status;
  \<^item> the flush awaiting \<open>loadQueue\<close>, then \<open>writeProblemLog\<close> of the current payload (with
    the payloads still to write and \<open>remaining\<close>), then \<open>saveQueue(remaining)\<close>.
\<close>

datatype task =
  EnqueueLoading ProblemLogPayload bool
| EnqueueSaving "ProblemLogPayload list" bool
| HandlerWriting ProblemLogPayload user
| HandlerCounting
| AuthSaving "user option"
| FlushLoading user
| FlushWriting user ProblemLogPayload "ProblemLogPayload list" "ProblemLogPayload list"
| FlushSaving "ProblemLogPayload list"
| Finished

text \<open>
  The value stored under \<open>queuedProblemLogs\<close> and under \<open>authState\<close> (absent before the
  first write), \<open>auth.currentUser\<close>, whether \<open>flushInFlight\<close> holds a promise, the
  documents added to \<open>users/{uid}/wrongProblems\<close> in order, the suspended tasks, and the
  responses sent.
\<close>

record bg_state =
  queuedProblemLogs :: "ProblemLogPayload list option"
  authState :: "user option option"
  currentUser :: "user option"
  flushInFlight :: bool
  wrongProblems :: "(jsstring \<times> ProblemLogPayload) list"
  tasks :: "task list"
  responses :: "LogProblemResponse list"

definition bg_initial :: "ProblemLogPayload list option \<Rightarrow> bg_state" where
  "bg_initial stored =
     \<lparr> queuedProblemLogs = stored, authState = None, currentUser = None, flushInFlight = False,
       wrongProblems = [], tasks = [], responses = [] \<rparr>"

text \<open>\<open>(await storageGet(QUEUED_LOGS_KEY)) ?? []\<close>, read when the operation completes.\<close>

definition loadQueue :: "bg_state \<Rightarrow> ProblemLogPayload list" where
  "loadQueue s = (case queuedProblemLogs s of None \<Rightarrow> [] | Some queue \<Rightarrow> queue)"

text \<open>\<open>while (queue.length > MAX_QUEUE_SIZE) { queue.shift() }\<close>\<close>

function shiftExcess :: "'a list \<Rightarrow> 'a list" where
  "shiftExcess queue = (if length queue > MAX_QUEUE_SIZE then shiftExcess (tl queue) else queue)"
  by pat_completeness auto
termination
  by (relation "measure length") (auto simp: MAX_QUEUE_SIZE_def)

declare shiftExcess.simps [simp del]

text \<open>
  \<open>flushQueuedLogs\<close> up to its first \<open>await\<close>, called by task \<open>i\<close>: with a flush in flight
  the caller awaits that flush and returns, doing nothing more; otherwise the flag is set
  and the flush starts loading.
\<close>

definition flushQueuedLogs :: "nat \<Rightarrow> user \<Rightarrow> bg_state \<Rightarrow> bg_state" where
  "flushQueuedLogs i u s =
     (if flushInFlight s then s\<lparr> tasks := (tasks s)[i := Finished] \<rparr>
      else s\<lparr> flushInFlight := True, tasks := (tasks s)[i := FlushLoading u] \<rparr>)"

text \<open>
  Task \<open>i\<close> resumed; \<open>ok\<close> tells whether the awaited operation succeeded (only a remote
  write fails). The \<open>finally\<close> of \<open>flushQueuedLogs\<close> runs as the flush ends.
\<close>

fun resume :: "nat \<Rightarrow> task \<Rightarrow> bool \<Rightarrow> bg_state \<Rightarrow> bg_state" where
  "resume i (EnqueueLoading payload signedOut) ok s =
     (let queue = shiftExcess (loadQueue s @ [payload])
      in s\<lparr> tasks := (tasks s)[i := EnqueueSaving queue signedOut] \<rparr>)"
| "resume i (EnqueueSaving queue signedOut) ok s =
     s\<lparr> queuedProblemLogs := Some queue,
        tasks := (tasks s)[i := Finished],
        responses := responses s @
          [if signedOut then Ok True (length queue) else Failed (length queue)] \<rparr>"
| "resume i (HandlerWriting payload u) ok s =
     (if ok
      then s\<lparr> wrongProblems := wrongProblems s @ [(uid u, payload)],
              tasks := (tasks s)[i := HandlerCounting] \<rparr>
      else s\<lparr> tasks := (tasks s)[i := EnqueueLoading payload False] \<rparr>)"
| "resume i HandlerCounting ok s =
     s\<lparr> tasks := (tasks s)[i := Finished],
        responses := responses s @ [Ok False (length (loadQueue s))] \<rparr>"
| "resume i (AuthSaving u) ok s =
     (let s1 = s\<lparr> authState := Some u \<rparr>
      in case u of
           None \<Rightarrow> s1\<lparr> tasks := (tasks s1)[i := Finished] \<rparr>
         | Some usr \<Rightarrow> flushQueuedLogs i usr s1)"
| "resume i (FlushLoading u) ok s =
     (case loadQueue s of
        [] \<Rightarrow> s\<lparr> flushInFlight := False, tasks := (tasks s)[i := Finished] \<rparr>
      | payload # rest \<Rightarrow> s\<lparr> tasks := (tasks s)[i := FlushWriting u payload rest []] \<rparr>)"
| "resume i (FlushWriting u payload rest remaining) ok s =
     (let s1 = (if ok then s\<lparr> wrongProblems := wrongProblems s @ [(uid u, payload)] \<rparr> else s);
          remaining1 = (if ok then remaining else remaining @ [payload])
      in case rest of
           [] \<Rightarrow> s1\<lparr> tasks := (tasks s1)[i := FlushSaving remaining1] \<rparr>
         | nxt # rest1 \<Rightarrow> s1\<lparr> tasks := (tasks s1)[i := FlushWriting u nxt rest1 remaining1] \<rparr>)"
| "resume i (FlushSaving remaining) ok s =
     s\<lparr> queuedProblemLogs := Some remaining, flushInFlight := False,
        tasks := (tasks s)[i := Finished] \<rparr>"
| "resume i Finished ok s = s"

text \<open>
  The callbacks of the worker: a \<open>LOG_WRONG_PROBLEM\<close> message, a change of the auth state
  (\<open>auth.currentUser\<close> is the user from then on), and the completion of the operation a
  task awaits. An \<open>AUTH_STATUS\<close> message only reads and is left out.
\<close>

datatype bg_event =
  OnMessage ProblemLogPayload
| OnAuthStateChanged "user option"
| Completed nat bool

fun bg_step :: "bg_event \<Rightarrow> bg_state \<Rightarrow> bg_state" where
  "bg_step (OnMessage payload) s =
     (case currentUser s of
        None \<Rightarrow> s\<lparr> tasks := tasks s @ [EnqueueLoading payload True] \<rparr>
      | Some u \<Rightarrow> s\<lparr> tasks := tasks s @ [HandlerWriting payload u] \<rparr>)"
| "bg_step (OnAuthStateChanged u) s = s\<lparr> currentUser := u, tasks := tasks s @ [AuthSaving u] \<rparr>"
| "bg_step (Completed i ok) s =
     (if i < length (tasks s) then resume i (tasks s ! i) ok s else s)"

fun bg_run :: "bg_event list \<Rightarrow> bg_state \<Rightarrow> bg_state" where
  "bg_run [] s = s"
| "bg_run (e # es) s = bg_run es (bg_step e s)"

section \<open>Reference definitions\<close>

text \<open>
  The words of a text: its maximal runs of code units that are not whitespace, in order.
\<close>

function ws_words :: "jsstring \<Rightarrow> jsstring list" where
  "ws_words s =
     (case dropWhile is_ws s of
        [] \<Rightarrow> []
      | c # cs \<Rightarrow> (c # takeWhile (\<lambda>x. \<not> is_ws x) cs) # ws_words (dropWhile (\<lambda>x. \<not> is_ws x) cs))"
  by pat_completeness auto
termination
proof (relation "measure length", goal_cases)
  case 1
  show ?case by simp
next
  case (2 s c cs)
  have "length (dropWhile (\<lambda>x. \<not> is_ws x) cs) \<le> length cs"
    by (rule length_dropWhile_le)
  moreover have "length (dropWhile is_ws s) \<le> length s"
    by (rule length_dropWhile_le)
  ultimately show ?case using 2 by simp
qed

declare ws_words.simps [simp del]

fun join_sp :: "jsstring list \<Rightarrow> jsstring" where
  "join_sp [] = []"
| "join_sp [w] = w"
| "join_sp (w # v # ws) = w @ [SP] @ join_sp (v # ws)"

text \<open>Whether \<open>replace_ws\<close> starts its result with the space of a leading run.\<close>

definition lead_sp :: "jsstring \<Rightarrow> jsstring" where
  "lead_sp s = (case s of [] \<Rightarrow> [] | c # _ \<Rightarrow> if is_ws c then [SP] else [])"

text \<open>
  The documents of the frames that can be read, in frame order; a list without its
  repetitions, each element at its first place; the two marker glyphs; and the trimmed
  texts of the result icons in scan order (document by document, element by element).
\<close>

definition accessibleDocs :: "frame list \<Rightarrow> doc_ref list" where
  "accessibleDocs frs = concat (map (\<lambda>fr. case fr of FrameDoc r \<Rightarrow> [r] | _ \<Rightarrow> []) frs)"

definition first_occurrences :: "'a list \<Rightarrow> 'a list" where
  "first_occurrences xs = rev (remdups (rev xs))"

definition is_marker :: "jsstring option \<Rightarrow> bool" where
  "is_marker v = (v = Some (lit ''J'') \<or> v = Some (lit ''q''))"

definition scanOrder :: "page \<Rightarrow> jsstring option list" where
  "scanOrder p =
     concat (map (\<lambda>d. map (map_option js_trim) (resultIcons (documentOf p d)))
                 (getAllCandidateDocuments p))"

section \<open>A page to evaluate on\<close>

text \<open>
  A trainer page whose problem sits in the second frame; the first frame is of another
  origin, the third has no document, the fourth shows the same document again.
\<close>

definition example_doc :: document where
  "example_doc =
     \<lparr> docURL = lit ''https://example.org/frame?problem_id=99'',
       probTextEls = [Some (lit ''  What  is   2+2?  '')],
       answerInputs = [lit '' '', lit '' 5 ''],
       resultIcons = [Some (lit ''x''), Some (lit '' J ''), Some (lit ''q'')],
       problemIdEls = [Some (lit ''p17'')] \<rparr>"

definition blank_doc :: document where
  "blank_doc =
     \<lparr> docURL = [], probTextEls = [], answerInputs = [], resultIcons = [], problemIdEls = [] \<rparr>"

definition example_page :: page where
  "example_page =
     \<lparr> href = lit ''https://artofproblemsolving.com/mathcounts_trainer/play'',
       searchParams = [],
       title = lit ''Trainer'',
       topDoc = 0,
       iframes = [CrossOrigin, FrameDoc 1, NoDocument, FrameDoc 1],
       documentOf = (\<lambda>r. if r = 1 then example_doc else blank_doc) \<rparr>"



text \<open>
  The armed timers of each kind, and the invariant of the content script: handles are
  positive, below the next handle and distinct; the armed scan timer is the one of
  \<open>scanTimeout\<close>, the armed expiry timer the one of \<open>pendingTimeout\<close>; a submission is
  pending exactly when \<open>pendingTimeout\<close> is set; the dedup set holds at most
  \<open>MAX_RECENT_LOGS\<close> distinct non-empty signatures.
\<close>

definition scanTimers :: "cs_state \<Rightarrow> (nat \<times> timer_callback \<times> nat) list" where
  "scanTimers s = filter (\<lambda>t. fst (snd t) = ScanCallback) (timers s)"

definition expiryTimers :: "cs_state \<Rightarrow> (nat \<times> timer_callback \<times> nat) list" where
  "expiryTimers s = filter (\<lambda>t. fst (snd t) = ExpiryCallback) (timers s)"

definition timers_ok :: "cs_state \<Rightarrow> bool" where
  "timers_ok s =
     (0 < nextTimerId s \<and>
      (\<forall>t \<in> set (timers s). 0 < fst t \<and> fst t < nextTimerId s) \<and>
      distinct (map fst (timers s)) \<and>
      scanTimers s =
        (case scanTimeout s of None \<Rightarrow> [] | Some h \<Rightarrow> [(h, ScanCallback, RESULT_SCAN_DELAY_MS)]))"

definition expiry_ok :: "cs_state \<Rightarrow> bool" where
  "expiry_ok s =
     (expiryTimers s =
        (case pendingTimeout s of None \<Rightarrow> [] | Some h \<Rightarrow> [(h, ExpiryCallback, RESULT_TIMEOUT_MS)]))"

definition pending_ok :: "cs_state \<Rightarrow> bool" where
  "pending_ok s = (pendingSubmission s = None \<longleftrightarrow> pendingTimeout s = None)"

text \<open>
  What \<open>clearPending\<close> may find: the expiry timer of the handle armed, or, inside the
  callback of that timer, the handle without a timer.
\<close>

definition expiry_pre :: "cs_state \<Rightarrow> bool" where
  "expiry_pre s =
     (case pendingTimeout s of
        None \<Rightarrow> expiryTimers s = []
      | Some h \<Rightarrow>
          0 < h \<and>
          (expiryTimers s = [(h, ExpiryCallback, RESULT_TIMEOUT_MS)] \<or>
           (h \<notin> fst ` set (timers s) \<and> expiryTimers s = [])))"

definition recent_ok :: "cs_state \<Rightarrow> bool" where
  "recent_ok s =
     ([] \<notin> set (recentSignatures s) \<and> distinct (recentSignatures s) \<and>
      length (recentSignatures s) \<le> MAX_RECENT_LOGS)"

definition wf_state :: "cs_state \<Rightarrow> bool" where
  "wf_state s = (timers_ok s \<and> expiry_ok s \<and> pending_ok s \<and> recent_ok s)"

text \<open>
  The snapshot a click takes of a page; histories without a click, and histories in which
  no page shows a marker; the effects a scan can add from a snapshot on a page.
\<close>

definition snapshotOf :: "page \<Rightarrow> jsstring \<Rightarrow> PendingSubmission" where
  "snapshotOf p now =
     \<lparr> pendingProblemText = getProblemText p (getProblemDocument p),
       pendingProblemId = getProblemId p (getProblemDocument p),
       pendingUserAnswer = getUserAnswer p (getProblemDocument p),
       submittedAt = now \<rparr>"

fun is_click :: "event \<Rightarrow> bool" where
  "is_click (SubmitClick now) = True"
| "is_click e = False"

definition no_click :: "(page \<times> event) list \<Rightarrow> bool" where
  "no_click es = list_all (\<lambda>pe. \<not> is_click (snd pe)) es"

definition no_marker :: "(page \<times> event) list \<Rightarrow> bool" where
  "no_marker es = list_all (\<lambda>pe. getResultState (fst pe) = None) es"

definition effects_of :: "PendingSubmission \<Rightarrow> page \<Rightarrow> effect set" where
  "effects_of q p =
     {Built (buildPayload p q), Gated (buildPayload p q) True, Gated (buildPayload p q) False,
      Sent (buildPayload p q)}"

text \<open>
  The example page without a result icon and with the icon of a correct answer; the state
  after a click on the former and one mutation; the payload of that click; a second
  payload; and a dedup set of 50 one-letter entries.
\<close>

definition pending_page :: page where
  "pending_page = example_page\<lparr> documentOf := (\<lambda>r. if r = 1 then example_doc\<lparr> resultIcons := [] \<rparr> else blank_doc) \<rparr>"

definition correct_page :: page where
  "correct_page = example_page\<lparr> documentOf := (\<lambda>r. if r = 1 then example_doc\<lparr> resultIcons := [Some (lit ''q'')] \<rparr> else blank_doc) \<rparr>"

definition after_click :: cs_state where
  "after_click = run [(pending_page, MutationObserved)] (step pending_page (SubmitClick (lit ''t0'')) (run [] initial))"

definition example_payload :: ProblemLogPayload where
  "example_payload =
     \<lparr> url = lit ''https://artofproblemsolving.com/mathcounts_trainer/play'',
       pageTitle = Some (lit ''Trainer''),
       problemText = Some (lit ''What is 2+2?''),
       problemId = Some (lit ''p17''),
       userAnswer = Some (lit ''5''),
       correctAnswer = None,
       resultText = Some (lit ''incorrect (J)''),
       capturedAt = lit ''t0'' \<rparr>"

definition other_payload :: ProblemLogPayload where
  "other_payload = example_payload\<lparr> userAnswer := Some (lit ''6'') \<rparr>"









text \<open>
  A user, and the worker after a message from a signed-out sender was queued, the user
  signed in (a flush started) and the auth state changed once more.
\<close>

definition example_user :: user where
  "example_user = User (lit ''u1'')"



section \<open>Whitespace normalisation\<close>

lemma is_ws_SP: "is_ws SP"
  by (simp add: is_ws_def SP_def)

lemma ws_words_Nil: "ws_words [] = []"
  by (simp add: ws_words.simps)

lemma ws_words_ws: "is_ws c \<Longrightarrow> ws_words (c # cs) = ws_words (dropWhile is_ws cs)"
  by (simp add: ws_words.simps [of "c # cs"] ws_words.simps [of "dropWhile is_ws cs"])

lemma ws_words_nonws:
  "\<not> is_ws c \<Longrightarrow>
   ws_words (c # cs) = (c # takeWhile (\<lambda>x. \<not> is_ws x) cs) # ws_words (dropWhile (\<lambda>x. \<not> is_ws x) cs)"
  by (simp add: ws_words.simps [of "c # cs"])

lemma ws_words_shape: "w \<in> set (ws_words s) \<Longrightarrow> w \<noteq> [] \<and> (\<forall>c \<in> set w. \<not> is_ws c)"
proof (induction s rule: ws_words.induct)
  case (1 s)
  show ?case
  proof (cases "dropWhile is_ws s")
    case Nil
    with 1 show ?thesis by (simp add: ws_words.simps [of s])
  next
    case (Cons c cs)
    then have c: "\<not> is_ws c"
      by (metis hd_dropWhile list.sel(1) list.discI)
    from Cons 1(2) have "w = c # takeWhile (\<lambda>x. \<not> is_ws x) cs \<or> w \<in> set (ws_words (dropWhile (\<lambda>x. \<not> is_ws x) cs))"
      by (simp add: ws_words.simps [of s])
    then show ?thesis
    proof
      assume "w = c # takeWhile (\<lambda>x. \<not> is_ws x) cs"
      with c show ?thesis by (auto dest: set_takeWhileD)
    next
      assume "w \<in> set (ws_words (dropWhile (\<lambda>x. \<not> is_ws x) cs))"
      with 1(1) [OF Cons] show ?thesis by simp
    qed
  qed
qed

lemma replace_ws_shape:
  "\<exists>b. replace_ws s = lead_sp s @ join_sp (ws_words s) @ b \<and> (b = [] \<or> b = [SP]) \<and>
       (ws_words s = [] \<longrightarrow> b = [])"
proof (induction s rule: replace_ws.induct)
  case 1
  show ?case by (simp add: lead_sp_def ws_words_Nil)
next
  case (2 c cs)
  show ?case
  proof (cases "is_ws c")
    case True
    let ?t = "dropWhile is_ws cs"
    from 2(1) [OF True] obtain b where
      b: "replace_ws ?t = lead_sp ?t @ join_sp (ws_words ?t) @ b" "b = [] \<or> b = [SP]"
         "ws_words ?t = [] \<longrightarrow> b = []" by blast
    have "lead_sp ?t = []"
    proof (cases ?t)
      case Nil show ?thesis unfolding lead_sp_def Nil by simp
    next
      case (Cons a as)
      then have "\<not> is_ws a" using hd_dropWhile [of is_ws cs] by simp
      with Cons show ?thesis by (simp add: lead_sp_def)
    qed
    with b True show ?thesis
      by (auto simp: lead_sp_def ws_words_ws)
  next
    case False
    from 2(2) [OF False] obtain b where
      b: "replace_ws cs = lead_sp cs @ join_sp (ws_words cs) @ b" "b = [] \<or> b = [SP]"
         "ws_words cs = [] \<longrightarrow> b = []" by blast
    show ?thesis
    proof (cases cs)
      case Nil
      with False show ?thesis by (simp add: lead_sp_def ws_words_nonws ws_words_Nil)
    next
      case (Cons d ds)
      show ?thesis
      proof (cases "is_ws d")
        case True
        have w: "ws_words (c # cs) = [c] # ws_words cs"
          using False True Cons by (simp add: ws_words_nonws)
        show ?thesis
        proof (cases "ws_words cs")
          case Nil
          with b w False True Cons show ?thesis by (simp add: lead_sp_def)
        next
          case (Cons v vs)
          with b w False True \<open>cs = d # ds\<close> show ?thesis by (auto simp: lead_sp_def)
        qed
      next
        case d: False
        have w: "ws_words (c # cs) = (c # hd (ws_words cs)) # tl (ws_words cs)" "ws_words cs \<noteq> []"
          using False d Cons by (simp_all add: ws_words_nonws)
        then obtain v vs where v: "ws_words cs = v # vs" by (cases "ws_words cs") auto
        with w have "join_sp (ws_words (c # cs)) = c # join_sp (ws_words cs)"
          by (cases vs) auto
        with b False d Cons show ?thesis by (auto simp: lead_sp_def)
      qed
    qed
  qed
qed

lemma join_sp_ends:
  assumes "\<forall>w \<in> set ws. w \<noteq> [] \<and> (\<forall>c \<in> set w. \<not> is_ws c)" "ws \<noteq> []"
  shows "join_sp ws \<noteq> [] \<and> \<not> is_ws (hd (join_sp ws)) \<and> \<not> is_ws (last (join_sp ws))"
  using assms
proof (induction ws rule: join_sp.induct)
  case 1
  then show ?case by simp
next
  case (2 w)
  then show ?case by (cases w) auto
next
  case (3 w v ws)
  then show ?case by (cases w) auto
qed

lemma js_trim_clean:
  assumes "s = [] \<or> (\<not> is_ws (hd s) \<and> \<not> is_ws (last s))"
  shows "js_trim s = s" "js_trim (SP # s) = s" 
    "s \<noteq> [] \<Longrightarrow> js_trim (s @ [SP]) = s" "s \<noteq> [] \<Longrightarrow> js_trim (SP # s @ [SP]) = s"
proof -
  have a: "dropWhile is_ws s = s" using assms by (cases s) auto
  have b: "dropWhile is_ws (rev s) = rev s" using assms
    by (cases s rule: rev_cases) auto
  show "js_trim s = s" by (simp add: js_trim_def a b)
  show "js_trim (SP # s) = s" by (simp add: js_trim_def a b is_ws_SP)
  have c: "s \<noteq> [] \<Longrightarrow> dropWhile is_ws (s @ [SP]) = s @ [SP]"
    using assms by (cases s) auto
  show "s \<noteq> [] \<Longrightarrow> js_trim (s @ [SP]) = s"
    by (simp add: js_trim_def c b is_ws_SP)
  show "s \<noteq> [] \<Longrightarrow> js_trim (SP # s @ [SP]) = s"
    by (simp add: js_trim_def c b is_ws_SP)
qed

lemma normalizeText_words: "normalizeText s = join_sp (ws_words s)"
proof -
  let ?J = "join_sp (ws_words s)"
  obtain b where b: "replace_ws s = lead_sp s @ ?J @ b" "b = [] \<or> b = [SP]"
      "ws_words s = [] \<longrightarrow> b = []"
    using replace_ws_shape by blast
  have l: "lead_sp s = [] \<or> lead_sp s = [SP]"
    by (auto simp: lead_sp_def split: list.splits)
  have clean: "?J = [] \<or> (\<not> is_ws (hd ?J) \<and> \<not> is_ws (last ?J))"
  proof (cases "ws_words s = []")
    case True then show ?thesis by simp
  next
    case False
    then show ?thesis using join_sp_ends [of "ws_words s"] ws_words_shape by blast
  qed
  have ne: "ws_words s \<noteq> [] \<Longrightarrow> ?J \<noteq> []"
    using join_sp_ends [of "ws_words s"] ws_words_shape by blast
  show ?thesis
  proof (cases "ws_words s = []")
    case True
    with b l show ?thesis by (auto simp: normalizeText_def js_trim_def is_ws_SP)
  next
    case False
    with b l js_trim_clean [OF clean] ne show ?thesis
      by (auto simp: normalizeText_def)
  qed
qed

lemma ws_words_concat: "concat (ws_words s) = filter (\<lambda>c. \<not> is_ws c) s"
proof (induction s rule: ws_words.induct)
  case (1 s)
  have f: "filter (\<lambda>c. \<not> is_ws c) s = filter (\<lambda>c. \<not> is_ws c) (dropWhile is_ws s)"
    by (induction s) auto
  show ?case
  proof (cases "dropWhile is_ws s")
    case Nil
    with f show ?thesis by (simp add: ws_words.simps [of s] del: dropWhile_eq_Nil_conv)
  next
    case (Cons c cs)
    then have c: "\<not> is_ws c" using hd_dropWhile [of is_ws s] by simp
    have "filter (\<lambda>c. \<not> is_ws c) cs =
          takeWhile (\<lambda>x. \<not> is_ws x) cs @ filter (\<lambda>c. \<not> is_ws c) (dropWhile (\<lambda>x. \<not> is_ws x) cs)"
      by (induction cs) auto
    with 1 [OF Cons] Cons c f show ?thesis
      by (simp add: ws_words.simps [of s])
  qed
qed

text \<open>
  C7. \<open>getProblemText\<close> takes the first element matching the problem-text selector;
  its text with every run of whitespace collapsed to one space and the ends trimmed is the
  words of the text joined by single spaces. The result is that text cut to 2000 code
  units, and absent when there is no document, no matching element, or no word in the
  text; a result is never longer than 2000.
\<close>

theorem getProblemText_normalized:
  "getProblemText p doc =
     (case doc of
        None \<Rightarrow> None
      | Some d \<Rightarrow>
          (case probTextEls (documentOf p d) of
             [] \<Rightarrow> None
           | None # _ \<Rightarrow> None
           | Some tc # _ \<Rightarrow>
               (if join_sp (ws_words tc) = [] then None
                else Some (take 2000 (join_sp (ws_words tc)))))) \<and>
   (case getProblemText p doc of None \<Rightarrow> True | Some r \<Rightarrow> length r \<le> 2000)"
  by (auto simp: getProblemText_def querySelector_def normalizeText_words MAX_TEXT_LENGTH_def
                 Let_def ws_words_Nil
           split: option.splits list.splits)

theorem getProblemText_normalized_witness:
  "getProblemText example_page (Some 1) = Some (lit ''What is 2+2?'') \<and>
   take 2000 (join_sp (ws_words (lit ''  What  is   2+2?  ''))) = lit ''What is 2+2?''"
proof -
  have "getProblemText example_page (Some 1) = Some (lit ''What is 2+2?'')"
    by (simp add: getProblemText_def querySelector_def example_page_def example_doc_def
          normalizeText_def js_trim_def lit_def is_ws_def SP_def MAX_TEXT_LENGTH_def)
  with getProblemText_normalized [of example_page "Some 1"] show ?thesis
    by (simp add: example_page_def example_doc_def split: if_splits)
qed

section \<open>The result detector\<close>

lemma remdups_skip: "r \<in> set zs \<Longrightarrow> remdups (ys @ r # zs) = remdups (ys @ zs)"
  by (induction ys) auto

lemma first_occurrences_snoc:
  "first_occurrences (xs @ [x]) = (if x \<in> set xs then first_occurrences xs else first_occurrences xs @ [x])"
  by (simp add: first_occurrences_def)

lemma first_occurrences_seen:
  "r \<in> set ds \<Longrightarrow> first_occurrences (ds @ r # xs) = first_occurrences (ds @ xs)"
  by (simp add: first_occurrences_def remdups_skip)

lemma first_occurrences_distinct: "distinct ds \<Longrightarrow> first_occurrences ds = ds"
  by (simp add: first_occurrences_def distinct_remdups_id)

lemma addFrameDocs_first:
  "distinct ds \<Longrightarrow> addFrameDocs ds frs = first_occurrences (ds @ accessibleDocs frs)"
proof (induction frs arbitrary: ds)
  case Nil
  then show ?case by (simp add: accessibleDocs_def first_occurrences_distinct)
next
  case (Cons fr frs)
  show ?case
  proof (cases fr)
    case (FrameDoc r)
    have d: "distinct (set_add ds r)" using Cons.prems by (simp add: set_add_def)
    show ?thesis
    proof (cases "r \<in> set ds")
      case True
      with Cons.IH [OF Cons.prems] FrameDoc show ?thesis
        by (simp add: safeAccessFrameDocument_def set_add_def accessibleDocs_def first_occurrences_seen)
    next
      case False
      with Cons.IH [OF d] FrameDoc show ?thesis
        by (simp add: safeAccessFrameDocument_def set_add_def accessibleDocs_def)
    qed
  qed (use Cons in \<open>simp_all add: safeAccessFrameDocument_def accessibleDocs_def\<close>)
qed

lemma scanSpans_find:
  "scanSpans spans =
     (case find is_marker (map (map_option js_trim) spans) of
        None \<Rightarrow> None
      | Some v \<Rightarrow> Some (if v = Some (lit ''J'') then wrong else correct))"
  by (induction spans) (auto simp: is_marker_def Let_def)

lemma find_append:
  "find P (xs @ ys) = (case find P xs of Some x \<Rightarrow> Some x | None \<Rightarrow> find P ys)"
  by (induction xs) auto

lemma scanDocs_find:
  "scanDocs p ds =
     (case find is_marker (concat (map (\<lambda>d. map (map_option js_trim) (resultIcons (documentOf p d))) ds)) of
        None \<Rightarrow> None
      | Some v \<Rightarrow> Some (if v = Some (lit ''J'') then wrong else correct))"
  by (induction ds) (auto simp: scanSpans_find find_append split: option.splits)


text \<open>
  C2. The candidate documents of a scan are the top document followed by the documents
  of the frames whose \<open>contentDocument\<close> can be read (a frame that throws or has no
  document is skipped), each once. The scan returns \<open>wrong\<close> or \<open>correct\<close> according to
  the first result icon, in document-then-element order, whose trimmed text is \<open>J\<close> or
  \<open>q\<close>, and \<open>null\<close> when no icon of any candidate document is a marker.
\<close>

theorem getResultState_first_marker:
  "getAllCandidateDocuments p = first_occurrences (topDoc p # accessibleDocs (iframes p)) \<and>
   set (getAllCandidateDocuments p) = insert (topDoc p) {r. FrameDoc r \<in> set (iframes p)} \<and>
   getResultState p =
     (case find is_marker (scanOrder p) of
        None \<Rightarrow> None
      | Some v \<Rightarrow> Some (if v = Some (lit ''J'') then wrong else correct))"
proof -
  have a: "getAllCandidateDocuments p = first_occurrences (topDoc p # accessibleDocs (iframes p))"
    using addFrameDocs_first [of "[topDoc p]" "iframes p"]
    by (simp add: getAllCandidateDocuments_def)
  have "set (accessibleDocs frs) = {r. FrameDoc r \<in> set frs}" for frs
    by (induction frs) (auto simp: accessibleDocs_def split: frame.splits)
  with a have b: "set (getAllCandidateDocuments p) = insert (topDoc p) {r. FrameDoc r \<in> set (iframes p)}"
    by (simp add: first_occurrences_def)
  show ?thesis using a b by (simp add: getResultState_def scanDocs_find scanOrder_def)
qed

theorem getResultState_first_marker_witness:
  "getAllCandidateDocuments example_page = [0, 1] \<and> getResultState example_page = Some wrong"
  using getResultState_first_marker [of example_page]
  by (simp add: example_page_def example_doc_def blank_doc_def first_occurrences_def accessibleDocs_def 
      scanOrder_def is_marker_def js_trim_def lit_def is_ws_def)

section \<open>The problem identifier\<close>

text \<open>
  C10. \<open>getProblemId\<close> reads the query parameters of the window's own address:
  \<open>problem_id\<close> first, then \<open>problem\<close>. Whatever address the passed document has, the
  result is the same; the document is read only when both parameters are absent, and then
  only for the \<open>data-problem-id\<close> attribute of its first element carrying one.
\<close>

theorem getProblemId_window_url_only:
  "getProblemId (p\<lparr> documentOf := (\<lambda>r. (documentOf p r)\<lparr> docURL := u r \<rparr>) \<rparr>) doc = getProblemId p doc \<and>
   (case searchParams_get (searchParams p) (lit ''problem_id'') of
      Some v \<Rightarrow> getProblemId p doc = Some v
    | None \<Rightarrow>
        (case searchParams_get (searchParams p) (lit ''problem'') of
           Some v \<Rightarrow> getProblemId p doc = Some v
         | None \<Rightarrow>
             getProblemId p doc =
               (case doc of
                  None \<Rightarrow> None
                | Some d \<Rightarrow>
                    (case problemIdEls (documentOf p d) of [] \<Rightarrow> None | pid # _ \<Rightarrow> pid))))"
  by (simp add: getProblemId_def querySelector_def split: option.splits list.splits)

theorem getProblemId_window_url_only_witness:
  "getProblemId example_page (Some 1) = Some (lit ''p17'') \<and>
   getProblemId (example_page\<lparr> searchParams := [(lit ''problem'', lit ''7''), (lit ''problem_id'', lit ''8'')] \<rparr>) (Some 1)
     = Some (lit ''8'') \<and>
   getProblemId (example_page\<lparr> searchParams := [(lit ''problem'', lit ''7'')] \<rparr>) None = Some (lit ''7'')"
  using getProblemId_window_url_only [where p = example_page and doc = "Some 1"]
    getProblemId_window_url_only [where p = "example_page\<lparr> searchParams := [(lit ''problem'', lit ''7''), (lit ''problem_id'', lit ''8'')] \<rparr>" and doc = "Some 1"]
    getProblemId_window_url_only [where p = "example_page\<lparr> searchParams := [(lit ''problem'', lit ''7'')] \<rparr>" and doc = None]
  by (simp add: example_page_def example_doc_def lit_def)

section \<open>Properties of the dedup gate\<close>

lemma signature_nonempty: "signature payload \<noteq> []"
  by (simp add: signature_def)









section \<open>Invariants of the content script\<close>

lemma findTimer_Some: "findTimer i ts = Some cb \<Longrightarrow> \<exists>d. (i, cb, d) \<in> set ts"
  by (induction i ts rule: findTimer.induct) (auto split: if_splits)

lemma findTimer_None: "findTimer i ts = None \<Longrightarrow> i \<notin> fst ` set ts"
  by (induction i ts rule: findTimer.induct) (auto split: if_splits)

lemma same_handle:
  "distinct (map fst ts) \<Longrightarrow> (i, x) \<in> set ts \<Longrightarrow> (i, y) \<in> set ts \<Longrightarrow> x = y"
  by (meson eq_key_imp_eq_value)

lemma filter_singleton_mem: "filter P xs = [x] \<Longrightarrow> y \<in> set xs \<Longrightarrow> P y \<Longrightarrow> y = x"
proof -
  assume a: "filter P xs = [x]" "y \<in> set xs" "P y"
  from a(2,3) have "y \<in> set (filter P xs)" by simp
  with a(1) show "y = x" by simp
qed

lemma filter_Nil_mem: "filter P xs = [] \<Longrightarrow> y \<in> set xs \<Longrightarrow> \<not> P y"
  by (simp add: filter_empty_conv)

text \<open>Removing a handle that belongs to a timer of one kind leaves the timers of the other kind.\<close>

lemma filter_other_kind:
  assumes "distinct (map fst ts)" "(i, cb, d) \<in> set ts" "cb \<noteq> cb'"
  shows "filter (\<lambda>t. fst (snd t) = cb') (filter (\<lambda>t. fst t \<noteq> i) ts) = filter (\<lambda>t. fst (snd t) = cb') ts"
proof -
  have "\<And>t. t \<in> set ts \<Longrightarrow> fst (snd t) = cb' \<Longrightarrow> fst t \<noteq> i"
  proof
    fix t assume t: "t \<in> set ts" "fst (snd t) = cb'" "fst t = i"
    then have "(i, snd t) \<in> set ts" by (metis prod.collapse)
    with assms(1,2) have "snd t = (cb, d)" using same_handle by metis
    with t assms(3) show False by simp
  qed
  then have "filter (\<lambda>t. fst t \<noteq> i \<and> fst (snd t) = cb') ts = filter (\<lambda>t. fst (snd t) = cb') ts"
    by (intro filter_cong) auto
  then show ?thesis by (simp add: conj_commute)
qed

lemma filter_absent: "i \<notin> fst ` set ts \<Longrightarrow> filter (\<lambda>t. fst t \<noteq> i) ts = ts"
  by (induction ts) auto

lemma filter_same_kind:
  assumes "filter (\<lambda>t. fst (snd t) = cb) ts = [(i, cb, d)]"
  shows "filter (\<lambda>t. fst (snd t) = cb) (filter (\<lambda>t. fst t \<noteq> i) ts) = []"
proof -
  have "\<And>t. t \<in> set ts \<Longrightarrow> fst (snd t) = cb \<Longrightarrow> fst t = i"
    using filter_singleton_mem [OF assms] by fastforce
  then show ?thesis by (auto simp: filter_empty_conv)
qed

lemma wf_initial: "wf_state initial"
  by (simp add: wf_state_def timers_ok_def expiry_ok_def pending_ok_def recent_ok_def initial_def
        scanTimers_def expiryTimers_def)

lemma expiry_handle_armed:
  "expiry_ok s \<Longrightarrow> pendingTimeout s = Some h \<Longrightarrow> (h, ExpiryCallback, RESULT_TIMEOUT_MS) \<in> set (timers s)"
proof -
  assume "expiry_ok s" "pendingTimeout s = Some h"
  then have "(h, ExpiryCallback, RESULT_TIMEOUT_MS) \<in> set (expiryTimers s)"
    by (simp add: expiry_ok_def)
  then show ?thesis by (simp add: expiryTimers_def)
qed

lemma scan_handle_armed:
  "timers_ok s \<Longrightarrow> scanTimeout s = Some h \<Longrightarrow> (h, ScanCallback, RESULT_SCAN_DELAY_MS) \<in> set (timers s)"
proof -
  assume "timers_ok s" "scanTimeout s = Some h"
  then have "(h, ScanCallback, RESULT_SCAN_DELAY_MS) \<in> set (scanTimers s)"
    by (simp add: timers_ok_def)
  then show ?thesis by (simp add: scanTimers_def)
qed

lemma handle_positive: "timers_ok s \<Longrightarrow> (h, x) \<in> set (timers s) \<Longrightarrow> 0 < h \<and> h < nextTimerId s"
  by (force simp: timers_ok_def)

lemma wf_expiry_pre: "timers_ok s \<Longrightarrow> expiry_ok s \<Longrightarrow> expiry_pre s"
  using expiry_handle_armed [of s] handle_positive [of s]
  by (auto simp: expiry_pre_def expiry_ok_def split: option.splits)

lemma clearPending_None:
  "pendingTimeout s = None \<Longrightarrow> clearPending s = s\<lparr> pendingSubmission := None \<rparr>"
  by (simp add: clearPending_def truthy_def)

lemma clearPending_Some:
  "pendingTimeout s = Some h \<Longrightarrow> 0 < h \<Longrightarrow>
   clearPending s =
     s\<lparr> pendingSubmission := None, timers := filter (\<lambda>t. fst t \<noteq> h) (timers s),
        pendingTimeout := None \<rparr>"
  by (simp add: clearPending_def truthy_def clearTimeout_def)

lemma timers_ok_remove:
  assumes "timers_ok s" "scanTimers (s\<lparr> timers := filter (\<lambda>t. fst t \<noteq> h) (timers s) \<rparr>) = scanTimers s"
  shows "timers_ok (s\<lparr> timers := filter (\<lambda>t. fst t \<noteq> h) (timers s) \<rparr>)"
  using assms by (simp add: timers_ok_def distinct_map_filter)

lemma scanTimers_remove_expiry:
  assumes "timers_ok s" "(h, ExpiryCallback, d) \<in> set (timers s)"
  shows "scanTimers (s\<lparr> timers := filter (\<lambda>t. fst t \<noteq> h) (timers s) \<rparr>) = scanTimers s"
  using assms filter_other_kind [of "timers s" h ExpiryCallback d ScanCallback]
  by (simp add: scanTimers_def timers_ok_def)

lemma expiryTimers_remove_scan:
  assumes "timers_ok s" "(h, ScanCallback, d) \<in> set (timers s)"
  shows "expiryTimers (s\<lparr> timers := filter (\<lambda>t. fst t \<noteq> h) (timers s) \<rparr>) = expiryTimers s"
  using assms filter_other_kind [of "timers s" h ScanCallback d ExpiryCallback]
  by (simp add: expiryTimers_def timers_ok_def)

lemma clearPending_wf:
  assumes t: "timers_ok s" and e: "expiry_pre s" and r: "recent_ok s"
  shows "wf_state (clearPending s)"
proof (cases "pendingTimeout s")
  case None
  with e have "expiryTimers s = []" by (simp add: expiry_pre_def)
  with None t r show ?thesis
    by (simp add: clearPending_None wf_state_def timers_ok_def expiry_ok_def pending_ok_def
          recent_ok_def scanTimers_def expiryTimers_def)
next
  case (Some h)
  with e have h: "0 < h" by (simp add: expiry_pre_def)
  let ?s = "s\<lparr> timers := filter (\<lambda>t. fst t \<noteq> h) (timers s) \<rparr>"
  from e Some consider
      (armed) "expiryTimers s = [(h, ExpiryCallback, RESULT_TIMEOUT_MS)]"
    | (fired) "h \<notin> fst ` set (timers s)" "expiryTimers s = []"
    by (auto simp: expiry_pre_def)
  then have "timers_ok ?s \<and> expiryTimers ?s = []"
  proof cases
    case armed
    then have "(h, ExpiryCallback, RESULT_TIMEOUT_MS) \<in> set (expiryTimers s)" by simp
    then have m: "(h, ExpiryCallback, RESULT_TIMEOUT_MS) \<in> set (timers s)"
      by (simp add: expiryTimers_def)
    have "timers_ok ?s" using t scanTimers_remove_expiry [OF t m] by (rule timers_ok_remove)
    moreover have "expiryTimers ?s = []"
      using filter_same_kind [of ExpiryCallback "timers s" h RESULT_TIMEOUT_MS] armed
      by (simp add: expiryTimers_def)
    ultimately show ?thesis by simp
  next
    case fired
    then have "?s = s" by (simp add: filter_absent)
    with t fired show ?thesis by simp
  qed
  with r show ?thesis
    by (simp add: clearPending_Some [OF Some h] wf_state_def timers_ok_def expiry_ok_def
          pending_ok_def recent_ok_def scanTimers_def expiryTimers_def)
qed

lemma scheduleResultScan_wf:
  assumes "wf_state s"
  shows "wf_state (scheduleResultScan s)"
proof (cases "pendingSubmission s = None \<or> truthy (scanTimeout s)")
  case True
  with assms show ?thesis by (simp add: scheduleResultScan_def)
next
  case False
  from assms have t: "timers_ok s" by (simp add: wf_state_def)
  have "scanTimeout s = None"
  proof (cases "scanTimeout s")
    case (Some h)
    with False have "h = 0" by (simp add: truthy_def)
    with scan_handle_armed [OF t Some] handle_positive [OF t] show ?thesis by blast
  qed simp
  then have sc: "scanTimers s = []" using t by (simp add: timers_ok_def)
  have fresh: "nextTimerId s \<notin> fst ` set (timers s)"
    using t by (auto simp: timers_ok_def)
  from False have "scheduleResultScan s =
      s\<lparr> timers := timers s @ [(nextTimerId s, ScanCallback, RESULT_SCAN_DELAY_MS)],
         nextTimerId := nextTimerId s + 1, scanTimeout := Some (nextTimerId s) \<rparr>"
    by (auto simp add: scheduleResultScan_def setTimeout_def)
  with assms sc fresh show ?thesis
    by (auto simp: wf_state_def timers_ok_def expiry_ok_def pending_ok_def recent_ok_def
          scanTimers_def expiryTimers_def)
qed

lemma startPendingTimeout_eq:
  assumes t: "timers_ok s" and e: "expiry_ok s"
  shows "startPendingTimeout s =
     s\<lparr> timers := filter (\<lambda>t. fst (snd t) \<noteq> ExpiryCallback) (timers s) @
                    [(nextTimerId s, ExpiryCallback, RESULT_TIMEOUT_MS)],
        nextTimerId := nextTimerId s + 1, pendingTimeout := Some (nextTimerId s) \<rparr>"
proof (cases "pendingTimeout s")
  case None
  with e have "expiryTimers s = []" by (simp add: expiry_ok_def)
  then have "filter (\<lambda>t. fst (snd t) \<noteq> ExpiryCallback) (timers s) = timers s"
    by (simp add: expiryTimers_def filter_empty_conv filter_id_conv)
  with None show ?thesis
    by (simp add: startPendingTimeout_def truthy_def setTimeout_def)
next
  case (Some h)
  from expiry_handle_armed [OF e Some] have m: "(h, ExpiryCallback, RESULT_TIMEOUT_MS) \<in> set (timers s)" .
  with handle_positive [OF t] have h: "0 < h" by blast
  have "\<And>x. x \<in> set (timers s) \<Longrightarrow> (fst x \<noteq> h) = (fst (snd x) \<noteq> ExpiryCallback)"
  proof -
    fix x assume x: "x \<in> set (timers s)"
    show "(fst x \<noteq> h) = (fst (snd x) \<noteq> ExpiryCallback)"
    proof (cases "fst (snd x) = ExpiryCallback")
      case True
      with x e Some have "x = (h, ExpiryCallback, RESULT_TIMEOUT_MS)"
        using filter_singleton_mem [of "\<lambda>t. fst (snd t) = ExpiryCallback" "timers s"]
        by (simp add: expiry_ok_def expiryTimers_def)
      with True show ?thesis by simp
    next
      case False
      have "fst x \<noteq> h"
      proof
        assume "fst x = h"
        with x have "(h, snd x) \<in> set (timers s)" by (metis prod.collapse)
        with m t have "snd x = (ExpiryCallback, RESULT_TIMEOUT_MS)"
          using same_handle [of "timers s" h] by (simp add: timers_ok_def)
        with False show False by simp
      qed
      with False show ?thesis by simp
    qed
  qed
  then have "filter (\<lambda>t. fst t \<noteq> h) (timers s) = filter (\<lambda>t. fst (snd t) \<noteq> ExpiryCallback) (timers s)"
    by (intro filter_cong) auto
  with Some h show ?thesis
    by (simp add: startPendingTimeout_def truthy_def setTimeout_def clearTimeout_def)
qed

lemma startPendingTimeout_wf:
  assumes t: "timers_ok s" and e: "expiry_ok s" and r: "recent_ok s" and p: "pendingSubmission s \<noteq> None"
  shows "wf_state (startPendingTimeout s)"
proof -
  have fresh: "nextTimerId s \<notin> fst ` set (timers s)"
    using t by (auto simp: timers_ok_def)
  have "filter (\<lambda>t. fst (snd t) = ScanCallback) (filter (\<lambda>t. fst (snd t) \<noteq> ExpiryCallback) (timers s))
        = filter (\<lambda>t. fst (snd t) = ScanCallback) (timers s)"
    by (simp, intro filter_cong) auto
  with t r p fresh show ?thesis
    by (auto simp: startPendingTimeout_eq [OF t e] wf_state_def timers_ok_def expiry_ok_def
          pending_ok_def recent_ok_def scanTimers_def expiryTimers_def distinct_map_filter)
qed

lemma shouldLog_frame:
  "pendingSubmission (snd (shouldLog pl s)) = pendingSubmission s \<and>
   scanTimeout (snd (shouldLog pl s)) = scanTimeout s \<and>
   pendingTimeout (snd (shouldLog pl s)) = pendingTimeout s \<and>
   timers (snd (shouldLog pl s)) = timers s \<and>
   nextTimerId (snd (shouldLog pl s)) = nextTimerId s"
  by (simp add: shouldLog_def Let_def)

lemma shouldLog_recent_ok:
  assumes "recent_ok s"
  shows "recent_ok (snd (shouldLog pl s))"
proof (cases "signature pl \<in> set (recentSignatures s)")
  case True
  with assms show ?thesis by (simp add: shouldLog_def recent_ok_def)
next
  case False
  have ne: "signature pl \<noteq> []" by (simp add: signature_def)
  show ?thesis
  proof (cases "recentSignatures s")
    case Nil
    with False ne show ?thesis
      by (simp add: shouldLog_def recent_ok_def set_add_def Let_def MAX_RECENT_LOGS_def)
  next
    case (Cons x xs)
    with False ne assms show ?thesis
      by (auto simp: shouldLog_def recent_ok_def set_add_def Let_def MAX_RECENT_LOGS_def)
  qed
qed

lemma shouldLog_wf: "wf_state s \<Longrightarrow> wf_state (snd (shouldLog pl s))"
  using shouldLog_frame [of pl s] shouldLog_recent_ok [of s pl]
  by (simp add: wf_state_def timers_ok_def expiry_ok_def pending_ok_def scanTimers_def
        expiryTimers_def)

lemma effects_update_wf: "wf_state (s\<lparr> effects := x \<rparr>) = wf_state s"
  by (simp add: wf_state_def timers_ok_def expiry_ok_def pending_ok_def recent_ok_def
        scanTimers_def expiryTimers_def)

lemma checkForResult_wf:
  assumes t: "timers_ok s" and e: "expiry_pre s" and r: "recent_ok s"
    and w: "pendingSubmission s \<noteq> None \<and> getResultState p = None \<Longrightarrow> wf_state s"
    and n: "pendingSubmission s = None \<Longrightarrow> wf_state s"
  shows "wf_state (checkForResult p s)"
proof (cases "pendingSubmission s")
  case None
  with n show ?thesis by (simp add: checkForResult_def)
next
  case (Some pending)
  show ?thesis
  proof (cases "getResultState p")
    case None
    with Some w show ?thesis by (simp add: checkForResult_def)
  next
    case (Some result)
    have c: "wf_state (clearPending s)" using t e r by (rule clearPending_wf)
    show ?thesis
    proof (cases result)
      case correct
      with c Some \<open>pendingSubmission s = Some pending\<close> show ?thesis
        by (simp add: checkForResult_def)
    next
      case wrong
      let ?pl = "buildPayload p pending"
      let ?s2 = "(clearPending s)\<lparr> effects := effects (clearPending s) @ [Built ?pl] \<rparr>"
      have "wf_state ?s2" using c by (simp add: effects_update_wf)
      then have "wf_state (snd (shouldLog ?pl ?s2))" by (rule shouldLog_wf)
      with wrong Some \<open>pendingSubmission s = Some pending\<close> show ?thesis
        by (simp add: checkForResult_def Let_def split_def sendLog_def effects_update_wf)
    qed
  qed
qed

lemma handleSubmitClick_wf:
  assumes "wf_state s"
  shows "wf_state (handleSubmitClick p now s)"
proof -
  let ?s1 = "s\<lparr> pendingSubmission :=
                    Some \<lparr> pendingProblemText = getProblemText p (getProblemDocument p),
                           pendingProblemId = getProblemId p (getProblemDocument p),
                           pendingUserAnswer = getUserAnswer p (getProblemDocument p),
                           submittedAt = now \<rparr> \<rparr>"
  from assms have "timers_ok ?s1" "expiry_ok ?s1" "recent_ok ?s1"
    by (simp_all add: wf_state_def timers_ok_def expiry_ok_def recent_ok_def scanTimers_def
          expiryTimers_def)
  then have "wf_state (startPendingTimeout ?s1)"
    by (rule startPendingTimeout_wf) simp
  then show ?thesis
    by (simp add: handleSubmitClick_def Let_def scheduleResultScan_wf)
qed

lemma step_wf:
  assumes w: "wf_state s"
  shows "wf_state (step p e s)"
proof (cases e)
  case (SubmitClick now)
  with w show ?thesis by (simp add: handleSubmitClick_wf)
next
  case MutationObserved
  with w show ?thesis by (simp add: scheduleResultScan_wf)
next
  case (TimerFires i)
  from w have t: "timers_ok s" and e: "expiry_ok s" and r: "recent_ok s" and pk: "pending_ok s"
    by (simp_all add: wf_state_def)
  show ?thesis
  proof (cases "findTimer i (timers s)")
    case None
    with TimerFires w show ?thesis by simp
  next
    case (Some cb)
    then obtain d where m: "(i, cb, d) \<in> set (timers s)" using findTimer_Some by blast
    let ?s1 = "s\<lparr> timers := filter (\<lambda>t. fst t \<noteq> i) (timers s) \<rparr>"
    have s1: "clearTimeout (Some i) s = ?s1" by (simp add: clearTimeout_def)
    show ?thesis
    proof (cases cb)
      case ScanCallback
      with m have "(i, ScanCallback, d) \<in> set (scanTimers s)" by (simp add: scanTimers_def)
      with t have sc: "scanTimeout s = Some i" "scanTimers s = [(i, ScanCallback, RESULT_SCAN_DELAY_MS)]"
        by (auto simp: timers_ok_def split: option.splits)
      let ?s2 = "?s1\<lparr> scanTimeout := None \<rparr>"
      have ex: "expiryTimers ?s1 = expiryTimers s"
        using t m ScanCallback by (intro expiryTimers_remove_scan) auto
      have "scanTimers ?s1 = []"
        using filter_same_kind [of ScanCallback "timers s" i RESULT_SCAN_DELAY_MS] sc(2)
        by (simp add: scanTimers_def)
      with t have t2: "timers_ok ?s2"
        by (simp add: timers_ok_def distinct_map_filter scanTimers_def)
      have e2: "expiry_ok ?s2" using e ex by (simp add: expiry_ok_def expiryTimers_def)
      have r2: "recent_ok ?s2" using r by (simp add: recent_ok_def)
      have p2: "pending_ok ?s2" using pk by (simp add: pending_ok_def)
      have w2: "wf_state ?s2" using t2 e2 r2 p2 by (simp add: wf_state_def)
      have "wf_state (checkForResult p ?s2)"
        using t2 wf_expiry_pre [OF t2 e2] r2 w2 by (intro checkForResult_wf) auto
      with TimerFires Some ScanCallback s1 show ?thesis by simp
    next
      case ExpiryCallback
      with m have "(i, ExpiryCallback, d) \<in> set (expiryTimers s)" by (simp add: expiryTimers_def)
      with e have ex: "pendingTimeout s = Some i" "expiryTimers s = [(i, ExpiryCallback, RESULT_TIMEOUT_MS)]"
        by (auto simp: expiry_ok_def split: option.splits)
      have t1: "timers_ok ?s1"
        using t scanTimers_remove_expiry [OF t] m ExpiryCallback by (intro timers_ok_remove) auto
      have "expiryTimers ?s1 = []"
        using filter_same_kind [of ExpiryCallback "timers s" i RESULT_TIMEOUT_MS] ex(2)
        by (simp add: expiryTimers_def)
      moreover have "0 < i" using handle_positive [OF t m] by simp
      ultimately have e1: "expiry_pre ?s1" using ex(1) by (auto simp: expiry_pre_def)
      have r1: "recent_ok ?s1" using r by (simp add: recent_ok_def)
      have "wf_state (clearPending ?s1)" using t1 e1 r1 by (rule clearPending_wf)
      with TimerFires Some ExpiryCallback s1 show ?thesis by simp
    qed
  qed
qed

lemma run_wf: "wf_state s \<Longrightarrow> wf_state (run es s)"
  by (induction es arbitrary: s) (auto simp: step_wf)

lemma reachable_wf: "wf_state (run es initial)"
  by (simp add: run_wf wf_initial)

section \<open>Histories without a click\<close>

lemma handleSubmitClick_snapshot:
  "handleSubmitClick p now s =
     scheduleResultScan (startPendingTimeout (s\<lparr> pendingSubmission := Some (snapshotOf p now) \<rparr>))"
  by (simp add: handleSubmitClick_def snapshotOf_def Let_def)

lemma scheduleResultScan_frame:
  "pendingSubmission (scheduleResultScan s) = pendingSubmission s \<and>
   pendingTimeout (scheduleResultScan s) = pendingTimeout s \<and>
   recentSignatures (scheduleResultScan s) = recentSignatures s \<and>
   effects (scheduleResultScan s) = effects s \<and>
   expiryTimers (scheduleResultScan s) = expiryTimers s"
  by (simp add: scheduleResultScan_def setTimeout_def expiryTimers_def)

lemma clearPending_frame:
  "pendingSubmission (clearPending s) = None \<and>
   recentSignatures (clearPending s) = recentSignatures s \<and>
   effects (clearPending s) = effects s \<and>
   scanTimeout (clearPending s) = scanTimeout s \<and>
   nextTimerId (clearPending s) = nextTimerId s"
  by (simp add: clearPending_def clearTimeout_def Let_def split: option.splits)

text \<open>What a click leaves: the snapshot pending and one expiry timer, newly armed.\<close>

lemma click_state:
  assumes w: "wf_state s"
  shows "pendingSubmission (step p (SubmitClick now) s) = Some (snapshotOf p now) \<and>
         pendingTimeout (step p (SubmitClick now) s) = Some (nextTimerId s) \<and>
         expiryTimers (step p (SubmitClick now) s) = [(nextTimerId s, ExpiryCallback, RESULT_TIMEOUT_MS)] \<and>
         effects (step p (SubmitClick now) s) = effects s \<and>
         recentSignatures (step p (SubmitClick now) s) = recentSignatures s \<and>
         (\<forall>h. pendingTimeout s = Some h \<longrightarrow> h \<notin> fst ` set (timers (step p (SubmitClick now) s)))"
proof -
  let ?s1 = "s\<lparr> pendingSubmission := Some (snapshotOf p now) \<rparr>"
  from w have t: "timers_ok ?s1" and e: "expiry_ok ?s1"
    by (simp_all add: wf_state_def timers_ok_def expiry_ok_def scanTimers_def expiryTimers_def)
  note eq = startPendingTimeout_eq [OF t e]
  let ?s2 = "startPendingTimeout ?s1"
  have a: "pendingSubmission ?s2 = Some (snapshotOf p now)" "pendingTimeout ?s2 = Some (nextTimerId s)"
    "effects ?s2 = effects s" "recentSignatures ?s2 = recentSignatures s"
    by (simp_all add: eq)
  have b: "expiryTimers ?s2 = [(nextTimerId s, ExpiryCallback, RESULT_TIMEOUT_MS)]"
    by (simp add: eq expiryTimers_def)
  have old: "h \<notin> fst ` set (timers (scheduleResultScan ?s2))" if h: "pendingTimeout s = Some h" for h
  proof -
    from w h have m: "(h, ExpiryCallback, RESULT_TIMEOUT_MS) \<in> set (timers s)"
      using expiry_handle_armed [of s h] by (simp add: wf_state_def)
    from w have tk: "timers_ok s" by (simp add: wf_state_def)
    from handle_positive [OF tk m] have lt: "h < nextTimerId s" by simp
    have "h \<notin> fst ` set (filter (\<lambda>t. fst (snd t) \<noteq> ExpiryCallback) (timers s))"
    proof
      assume "h \<in> fst ` set (filter (\<lambda>t. fst (snd t) \<noteq> ExpiryCallback) (timers s))"
      then obtain x where x: "x \<in> set (timers s)" "fst (snd x) \<noteq> ExpiryCallback" "fst x = h" by auto
      then have "(h, snd x) \<in> set (timers s)" by (metis prod.collapse)
      with m tk have "snd x = (ExpiryCallback, RESULT_TIMEOUT_MS)"
        using same_handle [of "timers s" h] by (simp add: timers_ok_def)
      with x show False by simp
    qed
    with lt show ?thesis
      by (auto simp: scheduleResultScan_def setTimeout_def eq)
  qed
  from a b old show ?thesis
    using scheduleResultScan_frame [of ?s2]
    by (simp add: handleSubmitClick_snapshot)
qed

lemma step_timer:
  "findTimer i (timers s) = None \<Longrightarrow> step p (TimerFires i) s = s"
  "findTimer i (timers s) = Some ScanCallback \<Longrightarrow>
   step p (TimerFires i) s =
     checkForResult p (s\<lparr> timers := filter (\<lambda>t. fst t \<noteq> i) (timers s), scanTimeout := None \<rparr>)"
  "findTimer i (timers s) = Some ExpiryCallback \<Longrightarrow>
   step p (TimerFires i) s = clearPending (s\<lparr> timers := filter (\<lambda>t. fst t \<noteq> i) (timers s) \<rparr>)"
  by (simp_all add: clearTimeout_def Let_def)

text \<open>Without a click, nothing pending stays nothing pending, and nothing is emitted.\<close>

lemma idle_step:
  assumes "pendingSubmission s = None" "\<not> is_click e"
  shows "pendingSubmission (step p e s) = None \<and> effects (step p e s) = effects s \<and>
         recentSignatures (step p e s) = recentSignatures s"
proof (cases e)
  case (TimerFires i)
  show ?thesis
  proof (cases "findTimer i (timers s)")
    case None
    with TimerFires assms(1) show ?thesis by (simp add: step_timer del: step.simps)
  next
    case (Some cb)
    with TimerFires assms(1) show ?thesis
      by (cases cb) (simp_all add: step_timer checkForResult_def clearPending_frame del: step.simps)
  qed
qed (use assms in \<open>simp_all add: scheduleResultScan_def\<close>)

lemma idle_run:
  "pendingSubmission s = None \<Longrightarrow> no_click es \<Longrightarrow>
   pendingSubmission (run es s) = None \<and> effects (run es s) = effects s \<and>
   recentSignatures (run es s) = recentSignatures s"
proof (induction es arbitrary: s)
  case Nil
  then show ?case by simp
next
  case (Cons pe es)
  obtain p e where pe: "pe = (p, e)" by (cases pe)
  with Cons.prems have "\<not> is_click e" "no_click es" by (simp_all add: no_click_def)
  with Cons.IH [of "step p e s"] idle_step [of s e p] Cons.prems(1) pe show ?case by simp
qed

text \<open>
  Without a click, a step either ends the pending submission or leaves it, the expiry
  handle, the dedup set and the log of effects as they were.
\<close>

lemma pending_step:
  assumes "\<not> is_click e"
  shows "pendingSubmission (step p e s) = None \<or>
         (pendingSubmission (step p e s) = pendingSubmission s \<and>
          pendingTimeout (step p e s) = pendingTimeout s \<and>
          effects (step p e s) = effects s \<and>
          recentSignatures (step p e s) = recentSignatures s)"
proof (cases e)
  case (TimerFires i)
  show ?thesis
  proof (cases "findTimer i (timers s)")
    case None
    with TimerFires show ?thesis by (simp add: step_timer del: step.simps)
  next
    case (Some cb)
    show ?thesis
    proof (cases cb)
      case ExpiryCallback
      with TimerFires Some show ?thesis by (simp add: step_timer clearPending_frame del: step.simps)
    next
      case ScanCallback
      let ?s2 = "s\<lparr> timers := filter (\<lambda>t. fst t \<noteq> i) (timers s), scanTimeout := None \<rparr>"
      have "pendingSubmission (checkForResult p ?s2) = None \<or> checkForResult p ?s2 = ?s2"
        using clearPending_frame [of ?s2] shouldLog_frame
        by (auto simp: checkForResult_def Let_def split_def sendLog_def split: option.splits)
      with TimerFires Some ScanCallback show ?thesis
        by (auto simp add: step_timer simp del: step.simps)
    qed
  qed
qed (use assms in \<open>simp_all add: scheduleResultScan_frame\<close>)

lemma pending_run:
  assumes "no_click es" "pendingSubmission (run es s) \<noteq> None"
  shows "pendingSubmission (run es s) = pendingSubmission s \<and>
         pendingTimeout (run es s) = pendingTimeout s \<and>
         effects (run es s) = effects s \<and>
         recentSignatures (run es s) = recentSignatures s"
  using assms
proof (induction es arbitrary: s)
  case Nil
  then show ?case by simp
next
  case (Cons pe es)
  obtain p e where pe: "pe = (p, e)" by (cases pe)
  with Cons.prems have nc: "\<not> is_click e" "no_click es" by (simp_all add: no_click_def)
  from Cons.prems(2) pe have live: "pendingSubmission (run es (step p e s)) \<noteq> None" by simp
  have "pendingSubmission (step p e s) \<noteq> None"
    using idle_run [OF _ nc(2), of "step p e s"] live by auto
  with pending_step [OF nc(1), of p s] Cons.IH [OF nc(2) live] pe show ?case by simp
qed

lemma findTimer_armed:
  "distinct (map fst ts) \<Longrightarrow> (i, cb, d) \<in> set ts \<Longrightarrow> findTimer i ts = Some cb"
proof (induction i ts rule: findTimer.induct)
  case (1 i)
  then show ?case by simp
next
  case (2 i j cb' d' ts)
  then show ?case by (auto simp: image_iff)
qed

lemma wf_idle_timers:
  assumes "wf_state s" "pendingSubmission s = None"
  shows "pendingTimeout s = None \<and> expiryTimers s = []"
  using assms by (simp add: wf_state_def pending_ok_def expiry_ok_def)

lemma wf_counts:
  assumes "wf_state s"
  shows "length (scanTimers s) \<le> 1 \<and> length (expiryTimers s) \<le> 1"
  using assms by (simp add: wf_state_def timers_ok_def expiry_ok_def split: option.splits)

text \<open>The scan callback on a page with a marker, while a submission is pending.\<close>

lemma scan_with_result:
  assumes "pendingSubmission s = Some q" "getResultState p = Some r"
    "findTimer h (timers s) = Some ScanCallback"
  shows "step p (TimerFires h) s =
     (let c = clearPending (s\<lparr> timers := filter (\<lambda>t. fst t \<noteq> h) (timers s), scanTimeout := None \<rparr>)
      in if r = wrong
         then (let pl = buildPayload p q;
                   (b, s4) = shouldLog pl (c\<lparr> effects := effects c @ [Built pl] \<rparr>)
               in if b then sendLog pl s4 else s4)
         else c)"
  using assms by (simp add: step_timer checkForResult_def Let_def del: step.simps)

lemma shouldLog_effects:
  "effects (snd (shouldLog pl s)) = effects s @ [Gated pl (signature pl \<notin> set (recentSignatures s))] \<and>
   fst (shouldLog pl s) = (signature pl \<notin> set (recentSignatures s))"
  by (simp add: shouldLog_def Let_def)

section \<open>Evaluation on the example page\<close>

lemmas eval_defs = example_page_def example_doc_def blank_doc_def pending_page_def correct_page_def
  lit_def is_ws_def js_trim_def SP_def normalizeText_def
  getResultState_def getAllCandidateDocuments_def safeAccessFrameDocument_def set_add_def
  getProblemDocument_def querySelector_def getProblemText_def getProblemId_def getUserAnswer_def
  MAX_TEXT_LENGTH_def RESULT_TIMEOUT_MS_def RESULT_SCAN_DELAY_MS_def MAX_RECENT_LOGS_def
  initial_def handleSubmitClick_def startPendingTimeout_def scheduleResultScan_def
  setTimeout_def clearTimeout_def truthy_def clearPending_def checkForResult_def
  no_click_def no_marker_def snapshotOf_def Let_def

lemma after_click_eq:
  "after_click =
     \<lparr> pendingSubmission = Some \<lparr> pendingProblemText = Some (lit ''What is 2+2?''),
                                  pendingProblemId = Some (lit ''p17''),
                                  pendingUserAnswer = Some (lit ''5''),
                                  submittedAt = lit ''t0'' \<rparr>,
       scanTimeout = Some 2, pendingTimeout = Some 1, recentSignatures = [],
       timers = [(1, ExpiryCallback, 12000), (2, ScanCallback, 250)], nextTimerId = 3,
       effects = [] \<rparr>"
  by (simp add: after_click_def eval_defs)

lemma markers: "getResultState example_page = Some wrong" "getResultState pending_page = None"
  "getResultState correct_page = Some correct"
  by (simp_all add: eval_defs)

lemma sig_example: "signature example_payload = lit ''{\"url\":\"https://artofproblemsolving.com/mathcounts_trainer/play\",\"problemText\":\"What is 2+2?\",\"userAnswer\":\"5\",\"resultText\":\"incorrect (J)\"}''"
  by (simp add: signature_def example_payload_def json_member_def json_string_def lit_def quote_unit_def
    is_high_surrogate_def is_low_surrogate_def)



section \<open>Scans that see a result\<close>

text \<open>
  C1. A click on submit, then any events but a further click, then a scan that finds the
  submission still pending and sees \<open>wrong\<close>: since the click exactly one payload is
  built and handed to \<open>shouldLog\<close> (and sent when the gate answers true). Each of
  \<open>problemText\<close>, \<open>problemId\<close> and \<open>userAnswer\<close> is the value snapshotted at the click
  when there is one, and a fresh read of the page at the scan otherwise; \<open>capturedAt\<close> is
  the time of the click. The state the gate runs on has the pending submission, its
  handle and its expiry timer already cleared.
\<close>

theorem wrong_scan_builds_one_payload:
  assumes nc: "no_click mid"
    and s: "s = run mid (step p0 (SubmitClick now) (run es initial))"
    and live: "pendingSubmission s \<noteq> None"
    and fire: "findTimer h (timers s) = Some ScanCallback"
    and res: "getResultState p = Some wrong"
  shows "let snap = snapshotOf p0 now;
             pl = buildPayload p snap;
             ok = (signature pl \<notin> set (recentSignatures s));
             c = clearPending (s\<lparr> timers := filter (\<lambda>t. fst t \<noteq> h) (timers s), scanTimeout := None \<rparr>);
             s' = step p (TimerFires h) s
         in pendingSubmission s = Some snap \<and>
            effects s' = effects (run es initial) @ [Built pl, Gated pl ok] @ (if ok then [Sent pl] else []) \<and>
            problemText pl =
              (case getProblemText p0 (getProblemDocument p0) of
                 Some v \<Rightarrow> Some v | None \<Rightarrow> getProblemText p (getProblemDocument p)) \<and>
            problemId pl =
              (case getProblemId p0 (getProblemDocument p0) of
                 Some v \<Rightarrow> Some v | None \<Rightarrow> getProblemId p (getProblemDocument p)) \<and>
            userAnswer pl =
              (case getUserAnswer p0 (getProblemDocument p0) of
                 Some v \<Rightarrow> Some v | None \<Rightarrow> getUserAnswer p (getProblemDocument p)) \<and>
            capturedAt pl = now \<and>
            pendingSubmission c = None \<and> pendingTimeout c = None \<and> expiryTimers c = [] \<and>
            s' = (let (b, s4) = shouldLog pl (c\<lparr> effects := effects c @ [Built pl] \<rparr>)
                  in if b then sendLog pl s4 else s4) \<and>
            pendingSubmission s' = None \<and> pendingTimeout s' = None \<and> expiryTimers s' = []"
proof -
  let ?s0 = "run es initial"
  let ?s1 = "step p0 (SubmitClick now) ?s0"
  let ?snap = "snapshotOf p0 now"
  let ?pl = "buildPayload p ?snap"
  let ?c = "clearPending (s\<lparr> timers := filter (\<lambda>t. fst t \<noteq> h) (timers s), scanTimeout := None \<rparr>)"
  let ?s' = "step p (TimerFires h) s"
  have w0: "wf_state ?s0" by (rule reachable_wf)
  have ws: "wf_state s" unfolding s by (rule run_wf, rule step_wf, rule w0)
  note cl = click_state [OF w0, of p0 now]
  from pending_run [OF nc, of ?s1] live s cl
  have ps: "pendingSubmission s = Some ?snap" and ef: "effects s = effects ?s0"
    by simp_all
  define g where "g = shouldLog ?pl (?c\<lparr> effects := effects ?c @ [Built ?pl] \<rparr>)"
  have st: "?s' = (if fst g then sendLog ?pl (snd g) else snd g)"
    using scan_with_result [OF ps res fire] by (simp add: Let_def split_def g_def)
  have ws': "wf_state ?s'" using ws by (rule step_wf)
  have gf: "pendingSubmission (snd g) = pendingSubmission ?c" "pendingTimeout (snd g) = pendingTimeout ?c"
    "timers (snd g) = timers ?c"
    unfolding g_def using shouldLog_frame [of ?pl "?c\<lparr> effects := effects ?c @ [Built ?pl] \<rparr>"]
    by simp_all
  have fr: "pendingSubmission ?s' = pendingSubmission ?c" "pendingTimeout ?s' = pendingTimeout ?c"
    "timers ?s' = timers ?c"
    unfolding st using gf by (simp_all add: sendLog_def)
  have c1: "pendingSubmission ?c = None" by (simp add: clearPending_frame)
  with fr ws' have idle: "pendingTimeout ?s' = None" "expiryTimers ?s' = []"
    using wf_idle_timers [of ?s'] by simp_all
  with fr have c2: "pendingTimeout ?c = None" "expiryTimers ?c = []"
    by (simp_all add: expiryTimers_def)
  have rc: "recentSignatures ?c = recentSignatures s" "effects ?c = effects s"
    by (simp_all add: clearPending_frame)
  have ge: "effects (snd g) = effects ?s0 @ [Built ?pl, Gated ?pl (signature ?pl \<notin> set (recentSignatures s))]"
    "fst g = (signature ?pl \<notin> set (recentSignatures s))"
    unfolding g_def using shouldLog_effects [of ?pl "?c\<lparr> effects := effects ?c @ [Built ?pl] \<rparr>"] rc ef
    by simp_all
  have eff: "effects ?s' = effects ?s0 @ [Built ?pl, Gated ?pl (signature ?pl \<notin> set (recentSignatures s))]
        @ (if signature ?pl \<notin> set (recentSignatures s) then [Sent ?pl] else [])"
    unfolding st using ge by (simp add: sendLog_def)
  have st': "?s' = (let (b, s4) = shouldLog ?pl (?c\<lparr> effects := effects ?c @ [Built ?pl] \<rparr>)
                  in if b then sendLog ?pl s4 else s4)"
    unfolding st g_def by (simp add: split_def)
  have fields: "problemText ?pl =
              (case getProblemText p0 (getProblemDocument p0) of
                 Some v \<Rightarrow> Some v | None \<Rightarrow> getProblemText p (getProblemDocument p))"
      "problemId ?pl =
              (case getProblemId p0 (getProblemDocument p0) of
                 Some v \<Rightarrow> Some v | None \<Rightarrow> getProblemId p (getProblemDocument p))"
      "userAnswer ?pl =
              (case getUserAnswer p0 (getProblemDocument p0) of
                 Some v \<Rightarrow> Some v | None \<Rightarrow> getUserAnswer p (getProblemDocument p))"
      "capturedAt ?pl = now"
    by (simp_all add: buildPayload_def snapshotOf_def nullish_def Let_def)
  from ps eff fields c1 c2 st' idle fr(1) c1 show ?thesis
    unfolding Let_def by (intro conjI) simp_all
qed

theorem wrong_scan_builds_one_payload_witness:
  "no_click [(pending_page, MutationObserved)] \<and>
   pendingSubmission after_click \<noteq> None \<and>
   findTimer 2 (timers after_click) = Some ScanCallback \<and>
   getResultState example_page = Some wrong \<and>
   effects (step example_page (TimerFires 2) after_click)
     = [Built example_payload, Gated example_payload True, Sent example_payload] \<and>
   pendingSubmission (step example_page (TimerFires 2) after_click) = None \<and>
   expiryTimers (step example_page (TimerFires 2) after_click) = []"
proof -
  have a: "no_click [(pending_page, MutationObserved)]" by (simp add: no_click_def)
  have b: "after_click = run [(pending_page, MutationObserved)]
             (step pending_page (SubmitClick (lit ''t0'')) (run [] initial))"
    by (simp add: after_click_def)
  have c: "pendingSubmission after_click \<noteq> None" by (simp add: after_click_eq)
  have d: "findTimer 2 (timers after_click) = Some ScanCallback" by (simp add: after_click_eq)
  have e: "getResultState example_page = Some wrong" by (simp add: markers)
  have f: "buildPayload example_page (snapshotOf pending_page (lit ''t0'')) = example_payload"
    by (simp add: buildPayload_def nullish_def example_payload_def eval_defs)
  have g: "recentSignatures after_click = []" "effects initial = []"
    by (simp_all add: after_click_eq initial_def)
  note T = wrong_scan_builds_one_payload [OF a b c d e, unfolded Let_def]
  have eff: "effects (step example_page (TimerFires 2) after_click)
     = [Built example_payload, Gated example_payload True, Sent example_payload]"
    using T [THEN conjunct2, THEN conjunct1] by (simp add: f g del: step.simps)
  have idle1: "pendingSubmission (step example_page (TimerFires 2) after_click) = None"
    using T by (elim conjE) assumption
  have idle2: "expiryTimers (step example_page (TimerFires 2) after_click) = []"
    using T by (elim conjE) assumption
  from a c d e eff idle1 idle2 show ?thesis by (intro conjI)
qed

text \<open>
  C4. A click on submit, then any events but a further click, then a scan that finds the
  submission still pending and sees \<open>correct\<close>: the pending submission and its expiry
  timer are cleared, and since the click no payload has been built, gated or sent; the
  dedup set is as before the click.
\<close>

theorem correct_scan_logs_nothing:
  assumes nc: "no_click mid"
    and s: "s = run mid (step p0 (SubmitClick now) (run es initial))"
    and live: "pendingSubmission s \<noteq> None"
    and fire: "findTimer h (timers s) = Some ScanCallback"
    and res: "getResultState p = Some correct"
  shows "pendingSubmission s = Some (snapshotOf p0 now) \<and>
         pendingSubmission (step p (TimerFires h) s) = None \<and>
         pendingTimeout (step p (TimerFires h) s) = None \<and>
         expiryTimers (step p (TimerFires h) s) = [] \<and>
         effects (step p (TimerFires h) s) = effects (run es initial) \<and>
         recentSignatures (step p (TimerFires h) s) = recentSignatures (run es initial)"
proof -
  let ?s0 = "run es initial"
  let ?s1 = "step p0 (SubmitClick now) ?s0"
  let ?c = "clearPending (s\<lparr> timers := filter (\<lambda>t. fst t \<noteq> h) (timers s), scanTimeout := None \<rparr>)"
  have w0: "wf_state ?s0" by (rule reachable_wf)
  have ws: "wf_state s" unfolding s by (rule run_wf, rule step_wf, rule w0)
  note cl = click_state [OF w0, of p0 now]
  from pending_run [OF nc, of ?s1] live s cl
  have ps: "pendingSubmission s = Some (snapshotOf p0 now)" and ef: "effects s = effects ?s0"
    and rs: "recentSignatures s = recentSignatures ?s0"
    by simp_all
  have st: "step p (TimerFires h) s = ?c"
    using scan_with_result [OF ps res fire] by (simp add: Let_def)
  have "wf_state ?c" using step_wf [OF ws, of p "TimerFires h"] st by simp
  then show ?thesis
    using wf_idle_timers [of ?c] clearPending_frame [of "s\<lparr> timers := filter (\<lambda>t. fst t \<noteq> h) (timers s), scanTimeout := None \<rparr>"]
      ps ef rs st by simp
qed

theorem correct_scan_logs_nothing_witness:
  "no_click [(pending_page, MutationObserved)] \<and>
   pendingSubmission after_click \<noteq> None \<and>
   findTimer 2 (timers after_click) = Some ScanCallback \<and>
   getResultState correct_page = Some correct \<and>
   pendingSubmission (step correct_page (TimerFires 2) after_click) = None \<and>
   pendingTimeout (step correct_page (TimerFires 2) after_click) = None \<and>
   expiryTimers (step correct_page (TimerFires 2) after_click) = [] \<and>
   effects (step correct_page (TimerFires 2) after_click) = []"
proof -
  have a: "no_click [(pending_page, MutationObserved)]" by (simp add: no_click_def)
  have b: "after_click = run [(pending_page, MutationObserved)]
             (step pending_page (SubmitClick (lit ''t0'')) (run [] initial))"
    by (simp add: after_click_def)
  have c: "pendingSubmission after_click \<noteq> None" by (simp add: after_click_eq)
  have d: "findTimer 2 (timers after_click) = Some ScanCallback" by (simp add: after_click_eq)
  have e: "getResultState correct_page = Some correct" by (simp add: markers)
  have g: "effects initial = []" by (simp add: initial_def)
  from correct_scan_logs_nothing [OF a b c d e] a c d e show ?thesis
    by (simp add: g)
qed

section \<open>Expiry, timers and a second click\<close>

text \<open>
  While no scan sees a marker and nobody clicks, a pending submission ends exactly when
  its expiry timer fires; nothing is emitted either way.
\<close>

lemma quiet_step:
  assumes w: "wf_state s" and ps: "pendingSubmission s = Some q" and pt: "pendingTimeout s = Some h"
    and nc: "\<not> is_click e" and nm: "getResultState p = None"
  shows "effects (step p e s) = effects s \<and>
         (if e = TimerFires h then pendingSubmission (step p e s) = None
          else pendingSubmission (step p e s) = Some q \<and> pendingTimeout (step p e s) = Some h)"
proof (cases e)
  case (SubmitClick now)
  with nc show ?thesis by simp
next
  case MutationObserved
  with ps pt show ?thesis by (simp add: scheduleResultScan_frame)
next
  case (TimerFires i)
  from w have t: "timers_ok s" and e: "expiry_ok s" by (simp_all add: wf_state_def)
  have armed: "(h, ExpiryCallback, RESULT_TIMEOUT_MS) \<in> set (timers s)"
    using expiry_handle_armed [OF e pt] .
  have fh: "findTimer h (timers s) = Some ExpiryCallback"
    using t armed by (intro findTimer_armed) (auto simp: timers_ok_def)
  show ?thesis
  proof (cases "i = h")
    case True
    with TimerFires fh show ?thesis
      by (simp add: step_timer clearPending_frame del: step.simps)
  next
    case False
    show ?thesis
    proof (cases "findTimer i (timers s)")
      case None
      with TimerFires False ps pt show ?thesis by (simp add: step_timer del: step.simps)
    next
      case (Some cb)
      then obtain d where m: "(i, cb, d) \<in> set (timers s)" using findTimer_Some by blast
      have "cb = ScanCallback"
      proof (rule ccontr)
        assume "cb \<noteq> ScanCallback"
        then have "cb = ExpiryCallback" by (cases cb) auto
        with m have "(i, ExpiryCallback, d) \<in> set (expiryTimers s)" by (simp add: expiryTimers_def)
        with e pt have "i = h" by (simp add: expiry_ok_def)
        with False show False by simp
      qed
      with TimerFires False Some ps pt nm show ?thesis
        by (simp add: step_timer checkForResult_def del: step.simps)
    qed
  qed
qed

lemma quiet_run:
  assumes "wf_state s" "pendingSubmission s = Some q" "pendingTimeout s = Some h"
    "no_click mid" "no_marker mid"
  shows "effects (run mid s) = effects s \<and>
         (if TimerFires h \<in> snd ` set mid then pendingSubmission (run mid s) = None
          else pendingSubmission (run mid s) = Some q \<and> pendingTimeout (run mid s) = Some h)"
  using assms
proof (induction mid arbitrary: s)
  case Nil
  then show ?case by simp
next
  case (Cons pe mid)
  obtain p e where pe: "pe = (p, e)" by (cases pe)
  with Cons.prems have nc: "\<not> is_click e" "no_click mid" and nm: "getResultState p = None" "no_marker mid"
    by (simp_all add: no_click_def no_marker_def)
  note q = quiet_step [OF Cons.prems(1-3) nc(1) nm(1)]
  have w: "wf_state (step p e s)" using Cons.prems(1) by (rule step_wf)
  show ?case
  proof (cases "e = TimerFires h")
    case True
    with q have "pendingSubmission (step p e s) = None" "effects (step p e s) = effects s" by simp_all
    with idle_run [OF _ nc(2), of "step p e s"] True pe show ?thesis by simp
  next
    case False
    with q have st: "pendingSubmission (step p e s) = Some q" "pendingTimeout (step p e s) = Some h"
      "effects (step p e s) = effects s" by simp_all
    from Cons.IH [OF w st(1,2) nc(2) nm(2)] st(3) False pe show ?thesis by simp
  qed
qed

lemma unmarked_step:
  assumes "getResultState p = None"
  shows "effects (step p e s) = effects s"
proof (cases e)
  case (SubmitClick now)
  then show ?thesis
    by (simp add: handleSubmitClick_def Let_def scheduleResultScan_frame startPendingTimeout_def
          setTimeout_def clearTimeout_def split: option.splits)
next
  case MutationObserved
  then show ?thesis by (simp add: scheduleResultScan_frame)
next
  case (TimerFires i)
  show ?thesis
  proof (cases "findTimer i (timers s)")
    case None
    with TimerFires show ?thesis by (simp add: step_timer del: step.simps)
  next
    case (Some cb)
    with TimerFires assms show ?thesis
      by (cases cb)
         (simp_all add: step_timer checkForResult_def clearPending_frame del: step.simps
            split: option.splits)
  qed
qed

lemma unmarked_run: "no_marker es \<Longrightarrow> effects (run es s) = effects s"
proof (induction es arbitrary: s)
  case Nil
  then show ?case by simp
next
  case (Cons pe es)
  obtain p e where pe: "pe = (p, e)" by (cases pe)
  with Cons.prems have "getResultState p = None" "no_marker es" by (simp_all add: no_marker_def)
  with Cons.IH [of "step p e s"] unmarked_step [of p e s] pe show ?case by simp
qed

lemma expiry_fires:
  assumes w: "wf_state s" and pt: "pendingTimeout s = Some h"
  shows "pendingSubmission s \<noteq> None \<and>
         expiryTimers s = [(h, ExpiryCallback, 12000)] \<and>
         pendingSubmission (step p (TimerFires h) s) = None \<and>
         pendingTimeout (step p (TimerFires h) s) = None \<and>
         expiryTimers (step p (TimerFires h) s) = [] \<and>
         effects (step p (TimerFires h) s) = effects s"
proof -
  from w have t: "timers_ok s" and e: "expiry_ok s" and pk: "pending_ok s"
    by (simp_all add: wf_state_def)
  have "findTimer h (timers s) = Some ExpiryCallback"
    using t expiry_handle_armed [OF e pt] by (intro findTimer_armed) (auto simp: timers_ok_def)
  then have fin: "pendingSubmission (step p (TimerFires h) s) = None"
      "effects (step p (TimerFires h) s) = effects s"
    by (simp_all add: step_timer clearPending_frame del: step.simps)
  have "wf_state (step p (TimerFires h) s)" using w by (rule step_wf)
  with fin wf_idle_timers [of "step p (TimerFires h) s"] e pt pk show ?thesis
    by (simp add: expiry_ok_def pending_ok_def RESULT_TIMEOUT_MS_def)
qed

text \<open>
  C5. A click on submit arms one expiry timer of 12000 ms. As long as no event sees a
  marker, nothing is built, gated or sent, whatever else happens; at every moment either
  nothing is pending, or a submission is pending with exactly one expiry timer of
  12000 ms armed, and the firing of that timer (whatever the page then shows) clears the
  pending submission and emits nothing. Without a further click the submission of the
  click stays pending exactly until the timer armed by the click fires.
\<close>

theorem expiry_ends_submission_silently:
  assumes nm: "no_marker mid"
    and s: "s = run mid (step p0 (SubmitClick now) (run es initial))"
  shows "expiryTimers (step p0 (SubmitClick now) (run es initial))
           = [(nextTimerId (run es initial), ExpiryCallback, 12000)] \<and>
         effects s = effects (run es initial) \<and>
         (case pendingTimeout s of
            None \<Rightarrow> pendingSubmission s = None \<and> expiryTimers s = []
          | Some h \<Rightarrow>
              pendingSubmission s \<noteq> None \<and>
              expiryTimers s = [(h, ExpiryCallback, 12000)] \<and>
              pendingSubmission (step p (TimerFires h) s) = None \<and>
              pendingTimeout (step p (TimerFires h) s) = None \<and>
              expiryTimers (step p (TimerFires h) s) = [] \<and>
              effects (step p (TimerFires h) s) = effects (run es initial)) \<and>
         (no_click mid \<longrightarrow>
            (if TimerFires (nextTimerId (run es initial)) \<in> snd ` set mid
             then pendingSubmission s = None
             else pendingSubmission s = Some (snapshotOf p0 now) \<and>
                  pendingTimeout s = Some (nextTimerId (run es initial))))"
proof -
  let ?s0 = "run es initial"
  let ?s1 = "step p0 (SubmitClick now) ?s0"
  have w0: "wf_state ?s0" by (rule reachable_wf)
  have w1: "wf_state ?s1" using w0 by (rule step_wf)
  have ws: "wf_state s" unfolding s using w1 by (rule run_wf)
  note cl = click_state [OF w0, of p0 now]
  from cl have c: "pendingSubmission ?s1 = Some (snapshotOf p0 now)"
    "pendingTimeout ?s1 = Some (nextTimerId ?s0)" "effects ?s1 = effects ?s0"
    "expiryTimers ?s1 = [(nextTimerId ?s0, ExpiryCallback, 12000)]"
    by (simp_all add: RESULT_TIMEOUT_MS_def)
  have ef: "effects s = effects ?s0" unfolding s using unmarked_run [OF nm] c(3) by simp
  have a: "case pendingTimeout s of
            None \<Rightarrow> pendingSubmission s = None \<and> expiryTimers s = []
          | Some h \<Rightarrow>
              pendingSubmission s \<noteq> None \<and>
              expiryTimers s = [(h, ExpiryCallback, 12000)] \<and>
              pendingSubmission (step p (TimerFires h) s) = None \<and>
              pendingTimeout (step p (TimerFires h) s) = None \<and>
              expiryTimers (step p (TimerFires h) s) = [] \<and>
              effects (step p (TimerFires h) s) = effects (run es initial)"
  proof (cases "pendingTimeout s")
    case None
    with ws show ?thesis by (simp add: wf_state_def pending_ok_def expiry_ok_def)
  next
    case (Some h)
    with expiry_fires [OF ws Some, of p] ef show ?thesis by simp
  qed
  have b: "no_click mid \<longrightarrow>
            (if TimerFires (nextTimerId ?s0) \<in> snd ` set mid
             then pendingSubmission s = None
             else pendingSubmission s = Some (snapshotOf p0 now) \<and>
                  pendingTimeout s = Some (nextTimerId ?s0))"
  proof
    assume nc: "no_click mid"
    from quiet_run [OF w1 c(1,2) nc nm]
    show "if TimerFires (nextTimerId ?s0) \<in> snd ` set mid
             then pendingSubmission s = None
             else pendingSubmission s = Some (snapshotOf p0 now) \<and>
                  pendingTimeout s = Some (nextTimerId ?s0)"
      unfolding s by (simp del: step.simps)
  qed
  from c(4) ef a b show ?thesis by simp
qed

theorem expiry_ends_submission_silently_witness:
  "no_marker [(pending_page, MutationObserved), (pending_page, SubmitClick (lit ''t1'')),
              (pending_page, TimerFires 2)] \<and>
   pendingTimeout (run [(pending_page, MutationObserved), (pending_page, SubmitClick (lit ''t1'')),
                        (pending_page, TimerFires 2)]
                     (step pending_page (SubmitClick (lit ''t0'')) (run [] initial))) = Some 3 \<and>
   expiryTimers (run [(pending_page, MutationObserved), (pending_page, SubmitClick (lit ''t1'')),
                      (pending_page, TimerFires 2)]
                   (step pending_page (SubmitClick (lit ''t0'')) (run [] initial)))
     = [(3, ExpiryCallback, 12000)] \<and>
   pendingSubmission
     (step example_page (TimerFires 3)
        (run [(pending_page, MutationObserved), (pending_page, SubmitClick (lit ''t1'')),
              (pending_page, TimerFires 2)]
           (step pending_page (SubmitClick (lit ''t0'')) (run [] initial)))) = None \<and>
   effects
     (step example_page (TimerFires 3)
        (run [(pending_page, MutationObserved), (pending_page, SubmitClick (lit ''t1'')),
              (pending_page, TimerFires 2)]
           (step pending_page (SubmitClick (lit ''t0'')) (run [] initial)))) = []"
proof -
  let ?mid = "[(pending_page, MutationObserved), (pending_page, SubmitClick (lit ''t1'')),
              (pending_page, TimerFires 2)]"
  let ?s = "run ?mid (step pending_page (SubmitClick (lit ''t0'')) (run [] initial))"
  have b: "no_marker ?mid" by (simp add: no_marker_def markers)
  have h: "pendingTimeout ?s = Some 3"
    using after_click_eq by (simp add: after_click_def eval_defs)
  have g: "effects (run [] initial) = []" by (simp add: initial_def)
  note T = expiry_ends_submission_silently [OF b refl, where p = example_page
      and ?p0.0 = pending_page and now = "lit ''t0''" and es = "[]",
      THEN conjunct2, THEN conjunct2, THEN conjunct1, unfolded h option.case g]
  have t1: "expiryTimers ?s = [(3, ExpiryCallback, 12000)]"
    using T by (elim conjE) assumption
  have t2: "pendingSubmission (step example_page (TimerFires 3) ?s) = None"
    using T by (elim conjE) assumption
  have t3: "effects (step example_page (TimerFires 3) ?s) = []"
    using T by (elim conjE) assumption
  from b h t1 t2 t3 show ?thesis by (intro conjI)
qed

text \<open>
  C6. After every history of events at most one scan timer (250 ms) and at most one expiry
  timer (12000 ms) are armed, the ones whose handles \<open>scanTimeout\<close> and
  \<open>pendingTimeout\<close> hold, and no expiry timer without a pending submission. A mutation
  while a scan is scheduled (or while nothing is pending) changes nothing; otherwise it
  arms the one scan timer. A click clears the expiry timer armed before and arms a new one.
\<close>

theorem timers_at_most_one_each:
  "let s = run es initial
   in length (scanTimers s) \<le> 1 \<and> length (expiryTimers s) \<le> 1 \<and>
      distinct (map fst (timers s)) \<and>
      scanTimers s = (case scanTimeout s of None \<Rightarrow> [] | Some h \<Rightarrow> [(h, ScanCallback, 250)]) \<and>
      expiryTimers s = (case pendingTimeout s of None \<Rightarrow> [] | Some h \<Rightarrow> [(h, ExpiryCallback, 12000)]) \<and>
      (pendingSubmission s = None \<longrightarrow> expiryTimers s = []) \<and>
      (scanTimers s \<noteq> [] \<or> pendingSubmission s = None \<longrightarrow> step p MutationObserved s = s) \<and>
      (scanTimers s = [] \<and> pendingSubmission s \<noteq> None \<longrightarrow>
         timers (step p MutationObserved s) = timers s @ [(nextTimerId s, ScanCallback, 250)]) \<and>
      expiryTimers (step p (SubmitClick now) s) = [(nextTimerId s, ExpiryCallback, 12000)] \<and>
      (\<forall>h. pendingTimeout s = Some h \<longrightarrow> h \<notin> fst ` set (timers (step p (SubmitClick now) s)))"
proof -
  let ?s = "run es initial"
  have w: "wf_state ?s" by (rule reachable_wf)
  then have t: "timers_ok ?s" and e: "expiry_ok ?s" by (simp_all add: wf_state_def)
  have a: "length (scanTimers ?s) \<le> 1 \<and> length (expiryTimers ?s) \<le> 1" using w by (rule wf_counts)
  have b: "distinct (map fst (timers ?s))" using t by (simp add: timers_ok_def)
  have c: "scanTimers ?s = (case scanTimeout ?s of None \<Rightarrow> [] | Some h \<Rightarrow> [(h, ScanCallback, 250)])"
    using t by (simp add: timers_ok_def RESULT_SCAN_DELAY_MS_def split: option.splits)
  have d: "expiryTimers ?s = (case pendingTimeout ?s of None \<Rightarrow> [] | Some h \<Rightarrow> [(h, ExpiryCallback, 12000)])"
    using e by (simp add: expiry_ok_def RESULT_TIMEOUT_MS_def split: option.splits)
  have i: "pendingSubmission ?s = None \<longrightarrow> expiryTimers ?s = []"
    using wf_idle_timers [OF w] by simp
  have f: "scanTimers ?s \<noteq> [] \<or> pendingSubmission ?s = None \<longrightarrow> step p MutationObserved ?s = ?s"
  proof
    assume "scanTimers ?s \<noteq> [] \<or> pendingSubmission ?s = None"
    then show "step p MutationObserved ?s = ?s"
    proof
      assume "scanTimers ?s \<noteq> []"
      with c obtain h where sh: "scanTimeout ?s = Some h" by (auto split: option.splits)
      with scan_handle_armed [OF t sh] handle_positive [OF t] have "truthy (scanTimeout ?s)"
        by (auto simp: truthy_def)
      then show ?thesis by (simp add: scheduleResultScan_def)
    qed (simp add: scheduleResultScan_def)
  qed
  have g: "scanTimers ?s = [] \<and> pendingSubmission ?s \<noteq> None \<longrightarrow>
         timers (step p MutationObserved ?s) = timers ?s @ [(nextTimerId ?s, ScanCallback, 250)]"
  proof
    assume as: "scanTimers ?s = [] \<and> pendingSubmission ?s \<noteq> None"
    with c have "scanTimeout ?s = None" by (auto split: option.splits)
    with as show "timers (step p MutationObserved ?s) = timers ?s @ [(nextTimerId ?s, ScanCallback, 250)]"
      by (simp add: scheduleResultScan_def truthy_def setTimeout_def RESULT_SCAN_DELAY_MS_def)
  qed
  note cl = click_state [OF w, of p now]
  from a b c d i f g cl show ?thesis
    unfolding Let_def by (simp add: RESULT_TIMEOUT_MS_def)
qed

theorem timers_at_most_one_each_witness:
  "length (scanTimers after_click) \<le> 1 \<and> length (expiryTimers after_click) \<le> 1 \<and>
   scanTimers after_click \<noteq> [] \<and>
   step pending_page MutationObserved after_click = after_click \<and>
   pendingTimeout after_click = Some 1 \<and>
   1 \<notin> fst ` set (timers (step pending_page (SubmitClick (lit ''t1'')) after_click)) \<and>
   expiryTimers (step pending_page (SubmitClick (lit ''t1'')) after_click)
     = [(3, ExpiryCallback, 12000)]"
proof -
  have b: "run [(pending_page, SubmitClick (lit ''t0'')), (pending_page, MutationObserved)] initial
           = after_click"
    by (simp add: after_click_def)
  have c: "scanTimers after_click \<noteq> []" "pendingTimeout after_click = Some 1"
    "nextTimerId after_click = 3" "scanTimeout after_click = Some 2"
    by (simp_all add: after_click_eq scanTimers_def)
  from timers_at_most_one_each
         [of "[(pending_page, SubmitClick (lit ''t0'')), (pending_page, MutationObserved)]"
             pending_page "lit ''t1''"]
    c show ?thesis
    unfolding b Let_def by simp
qed

text \<open>Effects added without a further click come from the pending snapshot.\<close>

lemma snapshot_step:
  assumes "\<not> is_click e" "pendingSubmission s = None \<or> pendingSubmission s = Some q"
  shows "(\<exists>new. effects (step p e s) = effects s @ new \<and> set new \<subseteq> effects_of q p) \<and>
         (pendingSubmission (step p e s) = None \<or> pendingSubmission (step p e s) = Some q)"
proof (cases "pendingSubmission s")
  case None
  with idle_step [OF _ assms(1), of s p] show ?thesis by simp
next
  case (Some q')
  with assms(2) have ps: "pendingSubmission s = Some q" by simp
  show ?thesis
  proof (cases e)
    case (SubmitClick now)
    with assms(1) show ?thesis by simp
  next
    case MutationObserved
    with ps show ?thesis by (simp add: scheduleResultScan_frame)
  next
    case (TimerFires i)
    show ?thesis
    proof (cases "findTimer i (timers s)")
      case None
      with TimerFires ps show ?thesis by (simp add: step_timer del: step.simps)
    next
      case (Some cb)
      show ?thesis
      proof (cases cb)
        case ExpiryCallback
        with TimerFires Some show ?thesis by (simp add: step_timer clearPending_frame del: step.simps)
      next
        case ScanCallback
        let ?s2 = "s\<lparr> timers := filter (\<lambda>t. fst t \<noteq> i) (timers s), scanTimeout := None \<rparr>"
        let ?c = "clearPending ?s2"
        let ?pl = "buildPayload p q"
        have st: "step p (TimerFires i) s = checkForResult p ?s2"
          using Some ScanCallback by (simp add: step_timer del: step.simps)
        show ?thesis
        proof (cases "getResultState p")
          case None
          with st ps TimerFires show ?thesis by (simp add: checkForResult_def)
        next
          case (Some r)
          show ?thesis
          proof (cases r)
            case correct
            with st ps TimerFires Some show ?thesis
              by (simp add: checkForResult_def clearPending_frame)
          next
            case wrong
            define g where "g = shouldLog ?pl (?c\<lparr> effects := effects ?c @ [Built ?pl] \<rparr>)"
            have eq: "step p (TimerFires i) s = (if fst g then sendLog ?pl (snd g) else snd g)"
              using st ps Some wrong by (simp add: checkForResult_def Let_def split_def g_def)
            have ge: "effects (snd g) = effects s @ [Built ?pl, Gated ?pl (fst g)]"
              unfolding g_def
              using shouldLog_effects [of ?pl "?c\<lparr> effects := effects ?c @ [Built ?pl] \<rparr>"]
              by (simp add: clearPending_frame)
            have gp: "pendingSubmission (snd g) = None"
              unfolding g_def
              using shouldLog_frame [of ?pl "?c\<lparr> effects := effects ?c @ [Built ?pl] \<rparr>"]
              by (simp add: clearPending_frame)
            have "effects (step p (TimerFires i) s) =
                  effects s @ ([Built ?pl, Gated ?pl (fst g)] @ (if fst g then [Sent ?pl] else []))"
              unfolding eq using ge by (simp add: sendLog_def)
            moreover have "set ([Built ?pl, Gated ?pl (fst g)] @ (if fst g then [Sent ?pl] else []))
                  \<subseteq> effects_of q p"
              by (cases "fst g") (simp_all add: effects_of_def)
            moreover have "pendingSubmission (step p (TimerFires i) s) = None"
              unfolding eq using gp by (simp add: sendLog_def)
            ultimately show ?thesis using TimerFires by blast
          qed
        qed
      qed
    qed
  qed
qed

lemma snapshot_run:
  assumes "no_click rest" "pendingSubmission s = None \<or> pendingSubmission s = Some q"
  shows "\<exists>new. effects (run rest s) = effects s @ new \<and>
               set new \<subseteq> (\<Union>pe \<in> set rest. effects_of q (fst pe))"
  using assms
proof (induction rest arbitrary: s)
  case Nil
  then show ?case by simp
next
  case (Cons pe rest)
  obtain p e where pe: "pe = (p, e)" by (cases pe)
  with Cons.prems have nc: "\<not> is_click e" "no_click rest" by (simp_all add: no_click_def)
  from snapshot_step [OF nc(1) Cons.prems(2), of p] obtain new1 where
    n1: "effects (step p e s) = effects s @ new1" "set new1 \<subseteq> effects_of q p"
    and ps: "pendingSubmission (step p e s) = None \<or> pendingSubmission (step p e s) = Some q"
    by blast
  from Cons.IH [OF nc(2) ps] obtain new2 where
    n2: "effects (run rest (step p e s)) = effects (step p e s) @ new2"
      "set new2 \<subseteq> (\<Union>pe \<in> set rest. effects_of q (fst pe))"
    by blast
  have "effects (run (pe # rest) s) = effects s @ (new1 @ new2)"
    using n1 n2 pe by simp
  moreover have "set (new1 @ new2) \<subseteq> (\<Union>pe \<in> set (pe # rest). effects_of q (fst pe))"
    using n1 n2 pe by auto
  ultimately show ?case by blast
qed

text \<open>
  C8. A click on submit while a submission is pending: the pending submission becomes the
  snapshot of the second click, the expiry timer armed for the first is gone and a new one
  of 12000 ms is armed. The state after the click is the same whatever submission was
  pending before, so the first snapshot has no effect on anything later; and until a
  third click, every payload built, gated or sent is built from the second snapshot.
\<close>

theorem second_click_discards_first_snapshot:
  assumes s: "s = run es initial" and live: "pendingSubmission s \<noteq> None"
    and s2: "s2 = step p2 (SubmitClick now2) s" and nc: "no_click rest"
  shows "pendingSubmission s2 = Some (snapshotOf p2 now2) \<and>
         pendingTimeout s2 = Some (nextTimerId s) \<and>
         expiryTimers s2 = [(nextTimerId s, ExpiryCallback, 12000)] \<and>
         (\<forall>h. pendingTimeout s = Some h \<longrightarrow> h \<noteq> nextTimerId s \<and> h \<notin> fst ` set (timers s2)) \<and>
         step p2 (SubmitClick now2) (s\<lparr> pendingSubmission := x \<rparr>) = s2 \<and>
         effects s2 = effects s \<and>
         take (length (effects s)) (effects (run rest s2)) = effects s \<and>
         (\<forall>eff \<in> set (drop (length (effects s)) (effects (run rest s2))).
            \<exists>pe \<in> set rest. eff \<in> effects_of (snapshotOf p2 now2) (fst pe))"
proof -
  have w: "wf_state s" unfolding s by (rule reachable_wf)
  note cl = click_state [OF w, of p2 now2]
  have old: "h \<noteq> nextTimerId s" if "pendingTimeout s = Some h" for h
  proof -
    from w that have "(h, ExpiryCallback, RESULT_TIMEOUT_MS) \<in> set (timers s)"
      using expiry_handle_armed [of s h] by (simp add: wf_state_def)
    with w handle_positive [of s h] show ?thesis by (auto simp: wf_state_def)
  qed
  have same: "step p2 (SubmitClick now2) (s\<lparr> pendingSubmission := x \<rparr>) = s2"
    unfolding s2 by (simp add: handleSubmitClick_def Let_def)
  from cl s2 have ps2: "pendingSubmission s2 = Some (snapshotOf p2 now2)" and e2: "effects s2 = effects s"
    by simp_all
  from snapshot_run [OF nc, of s2 "snapshotOf p2 now2"] ps2 obtain new where
    n: "effects (run rest s2) = effects s2 @ new"
       "set new \<subseteq> (\<Union>pe \<in> set rest. effects_of (snapshotOf p2 now2) (fst pe))"
    by auto
  from n e2 have "take (length (effects s)) (effects (run rest s2)) = effects s"
    "drop (length (effects s)) (effects (run rest s2)) = new" by simp_all
  with n(2) cl old same s2 show ?thesis
    by (auto simp: RESULT_TIMEOUT_MS_def)
qed

theorem second_click_discards_first_snapshot_witness:
  "pendingSubmission after_click \<noteq> None \<and>
   no_click [(example_page, TimerFires 2)] \<and>
   pendingSubmission (step example_page (SubmitClick (lit ''t1'')) after_click)
     = Some (snapshotOf example_page (lit ''t1'')) \<and>
   effects_of (snapshotOf example_page (lit ''t1'')) example_page
     = {Built (example_payload\<lparr> capturedAt := lit ''t1'' \<rparr>),
        Gated (example_payload\<lparr> capturedAt := lit ''t1'' \<rparr>) True,
        Gated (example_payload\<lparr> capturedAt := lit ''t1'' \<rparr>) False,
        Sent (example_payload\<lparr> capturedAt := lit ''t1'' \<rparr>)} \<and>
   set (effects (run [(example_page, TimerFires 2)]
                   (step example_page (SubmitClick (lit ''t1'')) after_click)))
     \<subseteq> effects_of (snapshotOf example_page (lit ''t1'')) example_page"
proof -
  let ?es = "[(pending_page, SubmitClick (lit ''t0'')), (pending_page, MutationObserved)]"
  have b: "after_click = run ?es initial" by (simp add: after_click_def)
  have c: "pendingSubmission after_click \<noteq> None" "effects after_click = []"
    by (simp_all add: after_click_eq)
  have d: "no_click [(example_page, TimerFires 2)]" by (simp add: no_click_def)
  have f: "buildPayload example_page (snapshotOf example_page (lit ''t1''))
             = example_payload\<lparr> capturedAt := lit ''t1'' \<rparr>"
    by (simp add: buildPayload_def nullish_def example_payload_def eval_defs)
  from second_click_discards_first_snapshot [OF b c(1) refl d, of example_page "lit ''t1''"]
    c d show ?thesis
    by (auto simp: f effects_of_def)
qed

section \<open>The dedup gate\<close>



section \<open>The delivery queue of the background worker\<close>

lemma shiftExcess_drop: "shiftExcess queue = drop (length queue - MAX_QUEUE_SIZE) queue"
proof (induction queue rule: shiftExcess.induct)
  case (1 queue)
  show ?case
  proof (cases "length queue > MAX_QUEUE_SIZE")
    case True
    then obtain x xs where q: "queue = x # xs" by (cases queue) auto
    from True q have n: "length queue - MAX_QUEUE_SIZE = Suc (length xs - MAX_QUEUE_SIZE)"
      by simp
    have "shiftExcess queue = shiftExcess (tl queue)"
      using True by (subst shiftExcess.simps) simp
    also have "\<dots> = drop (length xs - MAX_QUEUE_SIZE) xs"
      using 1 [OF True] q by simp
    also have "\<dots> = drop (length queue - MAX_QUEUE_SIZE) queue"
      unfolding n unfolding q by simp
    finally show ?thesis .
  next
    case False
    then have "shiftExcess queue = queue" by (subst shiftExcess.simps) simp
    with False show ?thesis by simp
  qed
qed








lemma enqueue_run:
  assumes "i < length (tasks s)" "tasks s ! i = EnqueueLoading payload f"
  shows "queuedProblemLogs (bg_run [Completed i a, Completed i b] s) =
           Some (drop (Suc (length (loadQueue s)) - 200) (loadQueue s @ [payload])) \<and>
         wrongProblems (bg_run [Completed i a, Completed i b] s) = wrongProblems s"
  using assms by (simp add: Let_def shiftExcess_drop MAX_QUEUE_SIZE_def)














text \<open>
  The queue is read and written in separate steps. When the steps of two tasks
  interleave, the later save wins: here a payload whose write failed while a flush was
  writing is queued by \<open>enqueueProblemLog\<close> and then overwritten by the save of the flush,
  so it is neither written nor queued.
\<close>

lemma enqueue_during_flush_is_overwritten:
  "queuedProblemLogs
     (bg_run [OnAuthStateChanged (Some example_user), Completed 0 True, Completed 0 True,
              OnMessage other_payload, Completed 1 False, Completed 1 True]
        (bg_initial (Some [example_payload])))
     = Some [example_payload] \<and>
   tasks
     (bg_run [OnAuthStateChanged (Some example_user), Completed 0 True, Completed 0 True,
              OnMessage other_payload, Completed 1 False, Completed 1 True]
        (bg_initial (Some [example_payload])))
     = [FlushWriting example_user example_payload [] [],
        EnqueueSaving [example_payload, other_payload] False] \<and>
   queuedProblemLogs
     (bg_run [OnAuthStateChanged (Some example_user), Completed 0 True, Completed 0 True,
              OnMessage other_payload, Completed 1 False, Completed 1 True,
              Completed 1 True, Completed 0 True, Completed 0 True]
        (bg_initial (Some [example_payload])))
     = Some [] \<and>
   wrongProblems
     (bg_run [OnAuthStateChanged (Some example_user), Completed 0 True, Completed 0 True,
              OnMessage other_payload, Completed 1 False, Completed 1 True,
              Completed 1 True, Completed 0 True, Completed 0 True]
        (bg_initial (Some [example_payload])))
     = [(lit ''u1'', example_payload)]"
  by (simp add: bg_initial_def loadQueue_def Let_def flushQueuedLogs_def shiftExcess_drop
        MAX_QUEUE_SIZE_def example_user_def)

end
